theory Spec2Isabelle
  imports Complex_Main
begin

section \<open>Python exceptions\<close>

text \<open>
  The exception classes that occur in \<^verbatim>\<open>app/streaming_logic.py\<close> and \<^verbatim>\<open>app/main.py\<close>,
  with the part of Python's class hierarchy that the \<^verbatim>\<open>except\<close> clauses of the code
  depend on. \<open>bases e\<close> lists the proper ancestors of \<open>e\<close> below \<^verbatim>\<open>BaseException\<close>;
  \<^verbatim>\<open>CancelledError\<close> derives from \<^verbatim>\<open>BaseException\<close> directly.
\<close>

datatype exn =
    Exception | OSError | BlockingIOError | FileNotFoundError | PermissionError
  | RuntimeError | ZeroDivisionError | ValueError | JSONDecodeError | TypeError
  | KeyError | IndexError | OverflowError | HTTPException nat | CancelledError

fun bases :: "exn \<Rightarrow> exn list" where
  "bases Exception = []"
| "bases OSError = [Exception]"
| "bases BlockingIOError = [OSError, Exception]"
| "bases FileNotFoundError = [OSError, Exception]"
| "bases PermissionError = [OSError, Exception]"
| "bases RuntimeError = [Exception]"
| "bases ZeroDivisionError = [Exception]"
| "bases ValueError = [Exception]"
| "bases JSONDecodeError = [ValueError, Exception]"
| "bases TypeError = [Exception]"
| "bases KeyError = [Exception]"
| "bases IndexError = [Exception]"
| "bases OverflowError = [Exception]"
| "bases (HTTPException code) = [Exception]"
| "bases CancelledError = []"

definition isinstance :: "exn \<Rightarrow> exn list \<Rightarrow> bool" where
  \<comment> \<open>\<^verbatim>\<open>except (C1, C2)\<close> catches \<open>e\<close> when \<open>e\<close> is an instance of one of the classes\<close>
  "isinstance e cs = list_ex (\<lambda>c. e = c \<or> c \<in> set (bases e)) cs"


section \<open>Double-precision arithmetic\<close>

text \<open>
  Python's \<^verbatim>\<open>float\<close> is the IEEE 754 double. A finite double is a rational \<open>m * 2 ^ e\<close>
  with \<open>\<bar>m\<bar> < 2 ^ 53\<close> and \<open>- 1074 \<le> e\<close>, below \<open>2 ^ 1024\<close> in magnitude; every operation
  returns the exact result rounded to the nearest double, ties to the even significand,
  and an infinity when the rounded result reaches \<open>2 ^ 1024\<close>. \<open>binade x\<close> is the exponent
  \<open>e\<close> with \<open>2 ^ e \<le> \<bar>x\<bar> < 2 ^ (e + 1)\<close>, found by halving or doubling (the counters stop
  at the ends of the range of the doubles); \<open>ulp x\<close> is the spacing of the doubles around
  \<open>x\<close>. The sign of a zero is not modelled: no operation of the program depends on it.
\<close>

definition round_half_even :: "rat \<Rightarrow> int" where
  "round_half_even x =
     (let f = \<lfloor>x\<rfloor>; r = x - of_int f
      in if r < 1/2 then f else if 1/2 < r then f + 1 else if even f then f else f + 1)"

fun halvings :: "nat \<Rightarrow> rat \<Rightarrow> nat" where
  "halvings 0 x = 0"
| "halvings (Suc k) x = (if x < 2 then 0 else Suc (halvings k (x / 2)))"

fun doublings :: "nat \<Rightarrow> rat \<Rightarrow> nat" where
  "doublings 0 x = 0"
| "doublings (Suc k) x = (if 1 \<le> x then 0 else Suc (doublings k (2 * x)))"

definition binade :: "rat \<Rightarrow> int" where
  "binade x = (if 1 \<le> \<bar>x\<bar> then int (halvings 1024 \<bar>x\<bar>) else - int (doublings 1075 \<bar>x\<bar>))"

definition ulp :: "rat \<Rightarrow> rat" where
  "ulp x = 2 powi (max (binade x - 52) (- 1074))"

definition round_double :: "rat \<Rightarrow> rat" where
  "round_double x = of_int (round_half_even (x / ulp x)) * ulp x"

definition is_double :: "rat \<Rightarrow> bool" where
  "is_double x = (round_double x = x \<and> \<bar>x\<bar> < 2 ^ 1024)"

datatype fval = Fin rat | PInf | NInf | NaN

definition fround :: "rat \<Rightarrow> fval" where
  "fround x =
     (let y = round_double x
      in if 2 ^ 1024 \<le> y then PInf else if y \<le> - (2 ^ 1024) then NInf else Fin y)"

fun fneg :: "fval \<Rightarrow> fval" where
  "fneg (Fin x) = Fin (- x)"
| "fneg PInf = NInf"
| "fneg NInf = PInf"
| "fneg NaN = NaN"

fun fadd :: "fval \<Rightarrow> fval \<Rightarrow> fval" where
  "fadd (Fin x) (Fin y) = fround (x + y)"
| "fadd NaN b = NaN"
| "fadd a NaN = NaN"
| "fadd PInf NInf = NaN"
| "fadd NInf PInf = NaN"
| "fadd PInf b = PInf"
| "fadd a PInf = PInf"
| "fadd NInf b = NInf"
| "fadd a NInf = NInf"

definition fsub :: "fval \<Rightarrow> fval \<Rightarrow> fval" where
  "fsub a b = fadd a (fneg b)"

fun fmul :: "fval \<Rightarrow> fval \<Rightarrow> fval" where
  "fmul (Fin x) (Fin y) = fround (x * y)"
| "fmul NaN b = NaN"
| "fmul a NaN = NaN"
| "fmul (Fin x) b = (if x = 0 then NaN else if 0 < x then b else fneg b)"
| "fmul a (Fin y) = (if y = 0 then NaN else if 0 < y then a else fneg a)"
| "fmul PInf PInf = PInf"
| "fmul NInf NInf = PInf"
| "fmul a b = NInf"

fun fdiv :: "fval \<Rightarrow> fval \<Rightarrow> fval" where
  \<comment> \<open>the divisor is not zero, see \<open>py_div\<close>\<close>
  "fdiv (Fin x) (Fin y) = fround (x / y)"
| "fdiv NaN b = NaN"
| "fdiv a NaN = NaN"
| "fdiv (Fin x) b = Fin 0"
| "fdiv a (Fin y) = (if 0 < y then a else fneg a)"
| "fdiv a b = NaN"

fun flt :: "fval \<Rightarrow> fval \<Rightarrow> bool" where
  "flt (Fin x) (Fin y) = (x < y)"
| "flt NaN b = False"
| "flt a NaN = False"
| "flt NInf NInf = False"
| "flt NInf b = True"
| "flt a NInf = False"
| "flt PInf b = False"
| "flt a PInf = True"

definition fmin :: "fval \<Rightarrow> fval \<Rightarrow> fval" where
  \<comment> \<open>\<^verbatim>\<open>min(a, b)\<close> returns \<open>a\<close> unless \<open>b < a\<close>\<close>
  "fmin a b = (if flt b a then b else a)"

definition py_div :: "fval \<Rightarrow> fval \<Rightarrow> exn + fval" where
  \<comment> \<open>\<^verbatim>\<open>a / b\<close> on floats\<close>
  "py_div a b = (if b = Fin 0 then Inl ZeroDivisionError else Inr (fdiv a b))"

definition float_of_int :: "int \<Rightarrow> exn + fval" where
  \<comment> \<open>the conversion of an \<^verbatim>\<open>int\<close> operand of a mixed operation\<close>
  "float_of_int i =
     (let y = round_double (of_int i)
      in if 2 ^ 1024 \<le> \<bar>y\<bar> then Inl OverflowError else Inr (Fin y))"

fun py_floor :: "fval \<Rightarrow> exn + int" where
  \<comment> \<open>\<^verbatim>\<open>math.floor\<close>\<close>
  "py_floor (Fin x) = Inr \<lfloor>x\<rfloor>"
| "py_floor NaN = Inl ValueError"
| "py_floor a = Inl OverflowError"

fun py_ceil :: "fval \<Rightarrow> exn + int" where
  \<comment> \<open>\<^verbatim>\<open>math.ceil\<close>\<close>
  "py_ceil (Fin x) = Inr \<lceil>x\<rceil>"
| "py_ceil NaN = Inl ValueError"
| "py_ceil a = Inl OverflowError"


section \<open>Resource locks: \<^verbatim>\<open>_acquire_lock\<close>, \<^verbatim>\<open>_next_port\<close>, \<^verbatim>\<open>__init__\<close>\<close>

text \<open>
  The operating system and the random number generator are outside the program. What the
  system answers to the \<open>k\<close>-th open-and-lock attempt of the process is given by an oracle
  \<open>os k\<close>; the \<open>k\<close>-th draw of \<^verbatim>\<open>random.random()\<close> is \<open>rnd k\<close>. The \<open>world\<close> counts the
  attempts and the draws, holds the set of open file descriptors of the process, and keeps
  a trace of the effects (sleeps, opens, closes, printed messages) in program order.
  \<^verbatim>\<open>print\<close> and \<^verbatim>\<open>close\<close> are taken not to raise.
\<close>

datatype os_outcome =
    OpenRaises exn      \<comment> \<open>\<^verbatim>\<open>open(lock_file_path, "w")\<close> raises\<close>
  | LockRaises exn      \<comment> \<open>the file is opened, \<^verbatim>\<open>flock\<close> / \<^verbatim>\<open>msvcrt.locking\<close> raises\<close>
  | LockGranted         \<comment> \<open>the file is opened and the exclusive lock is granted\<close>

datatype effect =
    Sleep rat | Open int | Close nat | Print_acquired int | Print_created_and_acquired int

record world =
  clock :: nat
  draws :: nat
  open_fds :: "nat set"
  next_fd :: nat
  trace :: "effect list"

type_synonym lock_state = "(int \<rightharpoonup> nat) \<times> world"

definition emit :: "effect \<Rightarrow> world \<Rightarrow> world" where
  "emit ev w = w\<lparr>trace := trace w @ [ev]\<rparr>"

definition close_file :: "nat option \<Rightarrow> lock_state \<Rightarrow> lock_state" where
  \<comment> \<open>\<^verbatim>\<open>if lock_file: lock_file.close()\<close>\<close>
  "close_file lock_file s =
     (case lock_file of
        None \<Rightarrow> s
      | Some fd \<Rightarrow> (fst s, emit (Close fd) ((snd s)\<lparr>open_fds := open_fds (snd s) - {fd}\<rparr>)))"

definition open_and_lock ::
  "(nat \<Rightarrow> os_outcome) \<Rightarrow> int \<Rightarrow> effect \<Rightarrow> nat option \<Rightarrow> lock_state
     \<Rightarrow> (exn + unit) \<times> nat option \<times> lock_state" where
  \<comment> \<open>the body of either \<^verbatim>\<open>try\<close> block: open, lock, print, record; returns the outcome, the
      value of the local variable \<^verbatim>\<open>lock_file\<close>, and the new state\<close>
  "open_and_lock os number msg lock_file s =
     (let locked_files = fst s; w = snd s;
          w1 = emit (Open number) (w\<lparr>clock := clock w + 1\<rparr>);
          fd = next_fd w;
          w2 = w1\<lparr>open_fds := insert fd (open_fds w1), next_fd := fd + 1\<rparr>
      in case os (clock w) of
           OpenRaises e \<Rightarrow> (Inl e, lock_file, (locked_files, w1))
         | LockRaises e \<Rightarrow> (Inl e, Some fd, (locked_files, w2))
         | LockGranted \<Rightarrow> (Inr (), Some fd, (locked_files(number \<mapsto> fd), emit msg w2)))"

definition acquire_lock ::
  "(nat \<Rightarrow> os_outcome) \<Rightarrow> int \<Rightarrow> lock_state \<Rightarrow> (exn + bool) \<times> lock_state" where
  "acquire_lock os number s =
     (case open_and_lock os number (Print_acquired number) None s of
        (Inr _, _, s1) \<Rightarrow> (Inr True, s1)
      | (Inl e, lock_file, s1) \<Rightarrow>
          if isinstance e [BlockingIOError, OSError] then (Inr False, close_file lock_file s1)
          else if isinstance e [FileNotFoundError] then
            (case open_and_lock os number (Print_created_and_acquired number) lock_file s1 of
               (Inr _, _, s2) \<Rightarrow> (Inr True, s2)
             | (Inl e2, lock_file2, s2) \<Rightarrow>
                 if isinstance e2 [BlockingIOError, OSError]
                 then (Inr False, close_file lock_file2 s2)
                 else (Inl e2, s2))
          else (Inl e, s1))"

definition uniform :: "(nat \<Rightarrow> rat) \<Rightarrow> rat \<Rightarrow> rat \<Rightarrow> world \<Rightarrow> rat \<times> world" where
  \<comment> \<open>\<^verbatim>\<open>random.uniform(a, b)\<close> is \<^verbatim>\<open>a + (b - a) * random()\<close>\<close>
  "uniform rnd a b w = (a + (b - a) * rnd (draws w), w\<lparr>draws := draws w + 1\<rparr>)"

definition sleep_uniform :: "(nat \<Rightarrow> rat) \<Rightarrow> lock_state \<Rightarrow> lock_state" where
  \<comment> \<open>\<^verbatim>\<open>time.sleep(random.uniform(0.1, 0.5))\<close>\<close>
  "sleep_uniform rnd s =
     (case uniform rnd (1/10) (1/2) (snd s) of (t, w) \<Rightarrow> (fst s, emit (Sleep t) w))"

fun sweep ::
  "(nat \<Rightarrow> os_outcome) \<Rightarrow> (nat \<Rightarrow> rat) \<Rightarrow> int list \<Rightarrow> lock_state
     \<Rightarrow> (exn + int option) \<times> lock_state" where
  \<comment> \<open>the inner loop \<^verbatim>\<open>for port in self.available_ports\<close>; \<open>Inr None\<close>: no port acquired\<close>
  "sweep os rnd [] s = (Inr None, s)"
| "sweep os rnd (port # ports) s =
     (case acquire_lock os port (sleep_uniform rnd s) of
        (Inl e, s') \<Rightarrow> (Inl e, s')
      | (Inr True, s') \<Rightarrow> (Inr (Some port), s')
      | (Inr False, s') \<Rightarrow> sweep os rnd ports s')"

fun attempts ::
  "(nat \<Rightarrow> os_outcome) \<Rightarrow> (nat \<Rightarrow> rat) \<Rightarrow> nat \<Rightarrow> int list \<Rightarrow> lock_state
     \<Rightarrow> (exn + int) \<times> lock_state" where
  \<comment> \<open>the outer loop \<^verbatim>\<open>for _ in range(k)\<close> followed by \<^verbatim>\<open>raise RuntimeError\<close>\<close>
  "attempts os rnd 0 ports s = (Inl RuntimeError, s)"
| "attempts os rnd (Suc k) ports s =
     (case sweep os rnd ports s of
        (Inl e, s') \<Rightarrow> (Inl e, s')
      | (Inr (Some port), s') \<Rightarrow> (Inr port, s')
      | (Inr None, s') \<Rightarrow> attempts os rnd k ports s')"

definition next_port ::
  "(nat \<Rightarrow> os_outcome) \<Rightarrow> (nat \<Rightarrow> rat) \<Rightarrow> int list \<Rightarrow> lock_state
     \<Rightarrow> (exn + int) \<times> lock_state" where
  "next_port os rnd ports s = attempts os rnd 10 ports s"

record StreamingManager =
  available_ports :: "int list"
  locked_files :: "int \<rightharpoonup> nat"
  a2f_clients :: "int list"         \<comment> \<open>the port each \<^verbatim>\<open>A2FClient\<close> is bound to\<close>
  client_locks :: "bool list"       \<comment> \<open>one \<^verbatim>\<open>asyncio.Lock\<close> per client; \<open>True\<close>: locked\<close>
  chunk_size :: rat
  current_fps :: int
  default_fps :: int
  max_fps :: int
  min_fps :: int

fun make_clients ::
  "(nat \<Rightarrow> os_outcome) \<Rightarrow> (nat \<Rightarrow> rat) \<Rightarrow> nat \<Rightarrow> int list \<Rightarrow> lock_state
     \<Rightarrow> (exn + int list) \<times> lock_state" where
  \<comment> \<open>\<^verbatim>\<open>[A2FClient(port=str(self._next_port())) for _ in range(clients_per_worker)]\<close>\<close>
  "make_clients os rnd 0 ports s = (Inr [], s)"
| "make_clients os rnd (Suc k) ports s =
     (case next_port os rnd ports s of
        (Inl e, s') \<Rightarrow> (Inl e, s')
      | (Inr port, s') \<Rightarrow>
          (case make_clients os rnd k ports s' of
             (Inl e, s'') \<Rightarrow> (Inl e, s'')
           | (Inr clients, s'') \<Rightarrow> (Inr (port # clients), s'')))"

definition init ::
  "(nat \<Rightarrow> os_outcome) \<Rightarrow> (nat \<Rightarrow> rat) \<Rightarrow> int \<Rightarrow> int \<Rightarrow> world
     \<Rightarrow> (exn + StreamingManager) \<times> world" where
  \<comment> \<open>\<^verbatim>\<open>StreamingManager.__init__\<close>; \<open>DEFAULT_WORKERS\<close> is \<^verbatim>\<open>Config.DEFAULT_WORKERS\<close>\<close>
  "init os rnd DEFAULT_WORKERS clients_per_worker w =
     (let ports = map (\<lambda>i. 8190 + int i) [0..<nat (DEFAULT_WORKERS * clients_per_worker)]
      in case make_clients os rnd (nat clients_per_worker) ports (Map.empty, w) of
           (Inl e, s) \<Rightarrow> (Inl e, snd s)
         | (Inr clients, s) \<Rightarrow>
             (Inr \<lparr>available_ports = ports, locked_files = fst s, a2f_clients = clients,
                   client_locks = map (\<lambda>_. False) clients,
                   chunk_size = round_double (3/10),
                   current_fps = 30, default_fps = 10, max_fps = 30, min_fps = 10\<rparr>,
              snd s))"


section \<open>Rate update: lines 120--125 of \<^verbatim>\<open>generate_blendshapes_coroutine\<close>\<close>

text \<open>
  \<open>elapsed_time\<close> is the difference of the two readings of the wall clock, a finite double.
  \<open>throughput\<close> is line 121, \<open>estimate\<close> the argument of \<^verbatim>\<open>max\<close> in lines 122--124: the product
  of the two integers is exact, its conversion to a float raises when it is too large,
  and \<^verbatim>\<open>math.floor\<close> raises on an infinity or a NaN.
\<close>

definition throughput :: "fval \<Rightarrow> fval \<Rightarrow> rat \<Rightarrow> exn + fval" where
  "throughput t_start t_end elapsed_time = py_div (fsub t_end t_start) (Fin elapsed_time)"

definition estimate :: "nat \<Rightarrow> int \<Rightarrow> fval \<Rightarrow> exn + int" where
  "estimate n fps alpha =
     (case float_of_int (int n * fps) of
        Inl e \<Rightarrow> Inl e
      | Inr x \<Rightarrow> py_floor (fsub (fmul x alpha) (Fin 7)))"

definition adjust_fps ::
  "StreamingManager \<Rightarrow> fval \<Rightarrow> fval \<Rightarrow> rat \<Rightarrow> exn + StreamingManager" where
  "adjust_fps self t_start t_end elapsed_time =
     (case throughput t_start t_end elapsed_time of
        Inl e \<Rightarrow> Inl e
      | Inr alpha \<Rightarrow>
          (case estimate (length (a2f_clients self)) (current_fps self) alpha of
             Inl e \<Rightarrow> Inl e
           | Inr est \<Rightarrow>
               let safe_fps = max (min_fps self) est
               in Inr (self\<lparr>current_fps :=
                          min (max_fps self) ((current_fps self + safe_fps) div 2)\<rparr>)))"

fun observe :: "StreamingManager \<Rightarrow> (rat \<times> rat \<times> rat) list \<Rightarrow> int list" where
  \<comment> \<open>the values \<open>current_fps\<close> takes across successive slice completions
      \<open>(t_start, t_end, elapsed_time)\<close>; a completion that raises leaves it unchanged\<close>
  "observe self [] = [current_fps self]"
| "observe self ((t_start, t_end, elapsed_time) # rest) =
     current_fps self #
       (case adjust_fps self (Fin t_start) (Fin t_end) elapsed_time of
          Inl e \<Rightarrow> observe self rest
        | Inr self' \<Rightarrow> observe self' rest)"

definition observe_spec :: "int \<Rightarrow> int \<Rightarrow> nat \<Rightarrow> int \<Rightarrow> fval \<Rightarrow> rat \<Rightarrow> exn + rat" where
  \<comment> \<open>the update as the specification words it: the same estimate in the arithmetic of
      the program, then an exact halving\<close>
  "observe_spec minFps maxFps workerCount currentFps sliceDuration wallClockElapsed =
     (case py_div sliceDuration (Fin wallClockElapsed) of
        Inl e \<Rightarrow> Inl e
      | Inr throughputRatio \<Rightarrow>
          (case float_of_int (int workerCount * currentFps) of
             Inl e \<Rightarrow> Inl e
           | Inr x \<Rightarrow>
               (case py_floor (fsub (fmul x throughputRatio) (Fin 7)) of
                  Inl e \<Rightarrow> Inl e
                | Inr fl \<Rightarrow>
                    let estimatedSafeFps = max minFps fl
                    in Inr (min (of_int maxFps)
                             ((of_int currentFps + of_int estimatedSafeFps) / 2)))))"


section \<open>Slices: lines 148--155 of \<^verbatim>\<open>submit_job\<close>\<close>

text \<open>
  The duration is a finite double and the chunk width the field \<open>chunk_size\<close>, which the
  constructor sets to the double nearest to 0.3. In \<^verbatim>\<open>i * self.chunk_size\<close> the integer is
  converted to a float first. \<open>collect\<close> is the list comprehension: the first element that
  raises ends it.
\<close>

definition nr_splits :: "rat \<Rightarrow> rat \<Rightarrow> exn + int" where
  \<comment> \<open>\<^verbatim>\<open>math.ceil(duration / self.chunk_size - 0.5)\<close>\<close>
  "nr_splits duration cs =
     (case py_div (Fin duration) (Fin cs) of
        Inl e \<Rightarrow> Inl e
      | Inr q \<Rightarrow> py_ceil (fsub q (Fin (1/2))))"

definition chunk :: "rat \<Rightarrow> rat \<Rightarrow> nat \<Rightarrow> exn + fval \<times> fval" where
  \<comment> \<open>\<^verbatim>\<open>(i * self.chunk_size, min((i + 1) * self.chunk_size, duration))\<close>\<close>
  "chunk duration cs i =
     (case float_of_int (int i) of
        Inl e \<Rightarrow> Inl e
      | Inr a \<Rightarrow>
          (case float_of_int (int i + 1) of
             Inl e \<Rightarrow> Inl e
           | Inr b \<Rightarrow> Inr (fmul a (Fin cs), fmin (fmul b (Fin cs)) (Fin duration))))"

fun collect :: "(exn + 'a) list \<Rightarrow> exn + 'a list" where
  "collect [] = Inr []"
| "collect (x # xs) =
     (case x of
        Inl e \<Rightarrow> Inl e
      | Inr v \<Rightarrow> (case collect xs of Inl e \<Rightarrow> Inl e | Inr vs \<Rightarrow> Inr (v # vs)))"

definition chunks :: "rat \<Rightarrow> rat \<Rightarrow> int \<Rightarrow> exn + (fval \<times> fval) list" where
  \<comment> \<open>\<^verbatim>\<open>range(n)\<close> is empty for \<open>n \<le> 0\<close>\<close>
  "chunks duration cs n = collect (map (chunk duration cs) [0..<nat n])"


section \<open>Jobs: \<^verbatim>\<open>submit_job\<close> and the slice tasks\<close>

record EmotionWeights =
  amazement :: rat
  anger :: rat
  cheekiness :: rat
  disgust :: rat
  fear :: rat
  grief :: rat
  joy :: rat
  outofbreath :: rat
  pain :: rat
  sadness :: rat

type_synonym payload = nat

datatype worker_call =
    Set_audio nat string
  | Set_emotions nat EmotionWeights
  | Generate_blendshapes nat fval fval int bool
      \<comment> \<open>client index, start, end, fps, \<open>use_a2e\<close>\<close>

datatype status = Created | Scheduled | Running | Completed payload | Failed exn | Cancelled

record task =
  client_idx :: nat
  t_start :: fval
  t_end :: fval
  a2e :: bool
  status :: status

datatype stream = Streaming | Exhausted | Raised exn | Closed

record job =
  self :: StreamingManager
  tasks :: "task list"
  idx :: nat                          \<comment> \<open>position of the drain loop\<close>
  yielded :: "(nat \<times> payload) list"    \<comment> \<open>the records yielded: \<open>(chunk_id, result)\<close>\<close>
  stream :: stream
  calls :: "worker_call list"         \<comment> \<open>the calls made on the workers, in order\<close>

text \<open>
  \<open>submit_job\<close> is the body of the generator from its start to the first \<^verbatim>\<open>await task\<close>,
  which runs without suspension: the fps is resolved and stored, the audio is loaded (the
  result of the external \<^verbatim>\<open>load_audio\<close> is the parameter \<open>loaded\<close>), every client receives
  its setup calls, the slices are computed and one task per slice is created. The setup
  calls are taken to return. An exception of the body ends the stream (\<open>Raised\<close>).
\<close>

definition setup_calls :: "nat \<Rightarrow> string \<Rightarrow> EmotionWeights option \<Rightarrow> worker_call list" where
  "setup_calls n audio_path emotions =
     concat (map (\<lambda>k. Set_audio k audio_path #
                       (case emotions of None \<Rightarrow> [] | Some em \<Rightarrow> [Set_emotions k em]))
                 [0..<n])"

definition create_tasks :: "nat \<Rightarrow> bool \<Rightarrow> (fval \<times> fval) list \<Rightarrow> task list" where
  "create_tasks n use_a2e cs =
     map (\<lambda>(i, c). \<lparr>client_idx = i mod n, t_start = fst c, t_end = snd c,
                     a2e = use_a2e, status = Created\<rparr>)
         (enumerate 0 cs)"

definition submit_job ::
  "StreamingManager \<Rightarrow> exn + string \<times> rat \<Rightarrow> int option \<Rightarrow> EmotionWeights option \<Rightarrow> bool
     \<Rightarrow> job" where
  "submit_job mgr loaded fps emotions use_a2e =
     (let fps' = (case fps of None \<Rightarrow> default_fps mgr | Some f \<Rightarrow> f);
          mgr' = mgr\<lparr>current_fps := fps'\<rparr>;
          j = \<lparr>self = mgr', tasks = [], idx = 0, yielded = [], stream = Streaming, calls = []\<rparr>
      in case loaded of
           Inl e \<Rightarrow> j\<lparr>stream := Raised e\<rparr>
         | Inr (audio_path, duration) \<Rightarrow>
             let n = length (a2f_clients mgr');
                 j1 = j\<lparr>calls := setup_calls n audio_path emotions\<rparr>
             in case nr_splits duration (chunk_size mgr') of
                  Inl e \<Rightarrow> j1\<lparr>stream := Raised e\<rparr>
                | Inr k \<Rightarrow>
                    (case chunks duration (chunk_size mgr') k of
                       Inl e \<Rightarrow> j1\<lparr>stream := Raised e\<rparr>
                     | Inr cs \<Rightarrow>
                         if cs \<noteq> [] \<and> n = 0 then j1\<lparr>stream := Raised ZeroDivisionError\<rparr>
                         else j1\<lparr>tasks := create_tasks n use_a2e cs\<rparr>))"

text \<open>
  After that the event loop interleaves the tasks and the consumer. One action is one
  uninterrupted stretch of code between two suspension points:
  \<^item> \<open>Acquire i\<close>: task \<open>i\<close> enters \<^verbatim>\<open>async with self.client_locks[client_idx]\<close>. The
    tasks start in creation order and an \<^verbatim>\<open>asyncio.Lock\<close> serves its waiters first come
    first served, so a task gets the gate when it is free and no earlier task of the same
    client still waits.
  \<^item> \<open>Call i\<close>: the executor thread evaluates the lambda: it reads \<^verbatim>\<open>self.current_fps\<close> and
    calls \<^verbatim>\<open>client.generate_blendshapes\<close>.
  \<^item> \<open>Return i r elapsed\<close>: the blocking call is over with result \<open>r\<close> (\<open>Inl\<close>: it raised)
    after \<open>elapsed\<close> time; the task updates the rate, leaves the \<^verbatim>\<open>async with\<close> block and
    is done.
  \<^item> \<open>Next\<close>: the drain loop gets the result of task \<open>idx\<close> and yields its record, or runs
    off the end of the task list, or the awaited task raised.
  \<^item> \<open>Disconnect\<close>: the consumer closes the generator while it is suspended at a
    \<^verbatim>\<open>yield\<close>. The generator has no \<^verbatim>\<open>try\<close>/\<^verbatim>\<open>finally\<close>: nothing else happens.
  \<^item> \<open>Cancel_await\<close>: the consumer is cancelled while the generator is suspended in
    \<^verbatim>\<open>await task\<close>; asyncio passes the cancellation on to the awaited task (only).
  An action that is not enabled gives \<open>None\<close>.
\<close>

datatype action =
    Acquire nat | Call nat | Return nat "exn + payload" rat | Next | Disconnect | Cancel_await

definition set_status :: "nat \<Rightarrow> status \<Rightarrow> job \<Rightarrow> job" where
  "set_status i st j = j\<lparr>tasks := (tasks j)[i := (tasks j ! i)\<lparr>status := st\<rparr>]\<rparr>"

definition set_gate :: "nat \<Rightarrow> bool \<Rightarrow> job \<Rightarrow> job" where
  "set_gate g b j = j\<lparr>self := (self j)\<lparr>client_locks := (client_locks (self j))[g := b]\<rparr>\<rparr>"

fun fire :: "action \<Rightarrow> job \<Rightarrow> job option" where
  "fire (Acquire i) j =
     (if i < length (tasks j) \<and> status (tasks j ! i) = Created then
        let g = client_idx (tasks j ! i) in
        if \<not> g < length (client_locks (self j)) then Some (set_status i (Failed IndexError) j)
        else if \<not> client_locks (self j) ! g \<and>
                list_all (\<lambda>t. client_idx t = g \<longrightarrow> status t \<noteq> Created) (take i (tasks j))
        then Some (set_gate g True (set_status i Scheduled j))
        else None
      else None)"
| "fire (Call i) j =
     (if i < length (tasks j) \<and> status (tasks j ! i) = Scheduled then
        let t = tasks j ! i in
        Some (set_status i Running
               (j\<lparr>calls := calls j @
                    [Generate_blendshapes (client_idx t) (t_start t) (t_end t)
                       (current_fps (self j)) (a2e t)]\<rparr>))
      else None)"
| "fire (Return i r elapsed_time) j =
     (if i < length (tasks j) \<and> status (tasks j ! i) = Running then
        let t = tasks j ! i in
        case r of
          Inl e \<Rightarrow> Some (set_gate (client_idx t) False (set_status i (Failed e) j))
        | Inr result \<Rightarrow>
            (case adjust_fps (self j) (t_start t) (t_end t) elapsed_time of
               Inl e \<Rightarrow> Some (set_gate (client_idx t) False (set_status i (Failed e) j))
             | Inr mgr' \<Rightarrow>
                 Some (set_gate (client_idx t) False
                        (set_status i (Completed result) (j\<lparr>self := mgr'\<rparr>))))
      else None)"
| "fire Next j =
     (if stream j = Streaming then
        if idx j < length (tasks j) then
          case status (tasks j ! idx j) of
            Completed result \<Rightarrow>
              Some (j\<lparr>yielded := yielded j @ [(idx j, result)], idx := idx j + 1\<rparr>)
          | Failed e \<Rightarrow> Some (j\<lparr>stream := Raised e\<rparr>)
          | Cancelled \<Rightarrow> Some (j\<lparr>stream := Raised CancelledError\<rparr>)
          | _ \<Rightarrow> None
        else Some (j\<lparr>stream := Exhausted\<rparr>)
      else None)"
| "fire Disconnect j =
     (if stream j = Streaming \<and> 0 < idx j then Some (j\<lparr>stream := Closed\<rparr>) else None)"
| "fire Cancel_await j =
     (if stream j = Streaming \<and> idx j < length (tasks j) then
        let t = tasks j ! idx j in
        case status t of
          Created \<Rightarrow> Some (set_status (idx j) Cancelled (j\<lparr>stream := Closed\<rparr>))
        | Scheduled \<Rightarrow>
            Some (set_gate (client_idx t) False
                   (set_status (idx j) Cancelled (j\<lparr>stream := Closed\<rparr>)))
        | Running \<Rightarrow>
            Some (set_gate (client_idx t) False
                   (set_status (idx j) Cancelled (j\<lparr>stream := Closed\<rparr>)))
        | _ \<Rightarrow> None
      else None)"

fun run :: "action list \<Rightarrow> job \<Rightarrow> job option" where
  "run [] j = Some j"
| "run (a # as) j = (case fire a j of None \<Rightarrow> None | Some j' \<Rightarrow> run as j')"


section \<open>The endpoint: \<^verbatim>\<open>process_audio_endpoint\<close> of \<^verbatim>\<open>app/main.py\<close>\<close>

text \<open>
  \<open>parse s\<close> is the result of \<^verbatim>\<open>EmotionWeights(**json.loads(s))\<close> and \<open>saved\<close> the result of
  \<^verbatim>\<open>save_audio_file\<close>, both outside the model; \<open>load_audio\<close> is the external decoder. The
  endpoint returns the response whose body is the generator of \<open>submit_job\<close>, or raises.
\<close>

definition process_audio_endpoint ::
  "StreamingManager option \<Rightarrow> (string \<Rightarrow> exn + EmotionWeights) \<Rightarrow> exn + string
     \<Rightarrow> (string \<Rightarrow> exn + string \<times> rat) \<Rightarrow> int option \<Rightarrow> string option \<Rightarrow> exn + job" where
  "process_audio_endpoint streaming_manager parse saved load_audio fps emotions =
     (case streaming_manager of
        None \<Rightarrow> Inl (HTTPException 500)
      | Some mgr \<Rightarrow>
          let parsed =
            (case emotions of
               None \<Rightarrow> Inr None
             | Some s \<Rightarrow>
                 if s = [] then Inr None
                 else (case parse s of
                         Inl e \<Rightarrow> if isinstance e [JSONDecodeError, ValueError]
                                  then Inl (HTTPException 400) else Inl e
                       | Inr w \<Rightarrow> Inr (Some w)))
          in case parsed of
               Inl e \<Rightarrow> Inl e
             | Inr emotion_weights \<Rightarrow>
                 (case saved of
                    Inl e \<Rightarrow> Inl e
                  | Inr audio_filename \<Rightarrow>
                      Inr (submit_job mgr (load_audio audio_filename) fps emotion_weights False)))"

section \<open>Auxiliary definitions for the statements\<close>

text \<open>
  Example inputs (a manager as \<open>init\<close> builds it with two clients on the ports 8190 and
  8191, one with a single client, oracles for the operating system), projections of the
  state that the statements read, and the invariants of a running job.
\<close>

definition example_manager :: StreamingManager where
  "example_manager =
     \<lparr>available_ports = [8190, 8191, 8192, 8193], locked_files = [8190 \<mapsto> 0, 8191 \<mapsto> 2],
      a2f_clients = [8190, 8191], client_locks = [False, False],
      chunk_size = round_double (3/10),
      current_fps = 30, default_fps = 10, max_fps = 30, min_fps = 10\<rparr>"

definition single_client_manager :: StreamingManager where
  "single_client_manager =
     \<lparr>available_ports = [8190, 8191], locked_files = [8190 \<mapsto> 0],
      a2f_clients = [8190], client_locks = [False], chunk_size = round_double (3/10),
      current_fps = 30, default_fps = 10, max_fps = 30, min_fps = 10\<rparr>"

definition slices :: "job \<Rightarrow> (fval \<times> fval) list" where
  "slices j = map (\<lambda>t. (t_start t, t_end t)) (tasks j)"

definition in_bounds :: "StreamingManager \<Rightarrow> bool" where
  "in_bounds m = (min_fps m \<le> current_fps m \<and> current_fps m \<le> max_fps m)"

definition fps_after :: "action list \<Rightarrow> job \<Rightarrow> int option" where
  "fps_after acts j = map_option (\<lambda>j'. current_fps (self j')) (run acts j)"

definition resolved_fps :: "StreamingManager \<Rightarrow> int option \<Rightarrow> int" where
  "resolved_fps m fps = (case fps of None \<Rightarrow> default_fps m | Some f \<Rightarrow> f)"

definition is_generate :: "worker_call \<Rightarrow> bool" where
  "is_generate c = (case c of Generate_blendshapes k s e f b \<Rightarrow> True | _ \<Rightarrow> False)"

definition tries :: "effect list \<Rightarrow> effect list" where
  "tries tr = filter (\<lambda>ev. case ev of Sleep t \<Rightarrow> True | Open p \<Rightarrow> True | _ \<Rightarrow> False) tr"

definition delay :: "(nat \<Rightarrow> rat) \<Rightarrow> nat \<Rightarrow> rat" where
  "delay rnd i = 1/10 + (1/2 - 1/10) * rnd i"

definition world0 :: world where
  "world0 = \<lparr>clock = 0, draws = 0, open_fds = {}, next_fd = 0, trace = []\<rparr>"

definition os_busy_first :: "nat \<Rightarrow> os_outcome" where
  "os_busy_first k = (if k = 0 then LockRaises BlockingIOError else LockGranted)"

definition os_missing_dir :: "nat \<Rightarrow> os_outcome" where
  "os_missing_dir k = OpenRaises FileNotFoundError"

definition os_all_busy :: "nat \<Rightarrow> os_outcome" where
  "os_all_busy k = LockRaises BlockingIOError"

definition os_own_lock :: "nat \<Rightarrow> os_outcome" where
  \<comment> \<open>the second attempt meets the lock that the process itself holds since the first\<close>
  "os_own_lock k = (if k = 1 then LockRaises BlockingIOError else LockGranted)"

definition rnd_half :: "nat \<Rightarrow> rat" where
  "rnd_half i = 1/2"

definition holds_gate :: "task \<Rightarrow> bool" where
  "holds_gate t = (status t = Scheduled \<or> status t = Running)"

definition gates_inv :: "task list \<Rightarrow> bool list \<Rightarrow> bool" where
  "gates_inv ts locks =
     ((\<forall>i<length ts. client_idx (ts ! i) < length locks) \<and>
      (\<forall>g<length locks.
         locks ! g = (\<exists>i<length ts. client_idx (ts ! i) = g \<and> holds_gate (ts ! i))) \<and>
      (\<forall>i<length ts. \<forall>i'<length ts.
         holds_gate (ts ! i) \<and> holds_gate (ts ! i') \<and> client_idx (ts ! i) = client_idx (ts ! i')
         \<longrightarrow> i = i'))"

definition drained :: "job \<Rightarrow> bool" where
  "drained j =
     (idx j \<le> length (tasks j) \<and> map fst (yielded j) = [0..<idx j] \<and>
      (\<forall>k<idx j. status (tasks j ! k) = Completed (snd (yielded j ! k))) \<and>
      (stream j = Exhausted \<longrightarrow> idx j = length (tasks j)))"

definition outcome_after ::
  "action list \<Rightarrow> job \<Rightarrow> (stream \<times> status list \<times> bool list \<times> (nat \<times> payload) list) option" where
  "outcome_after acts j =
     map_option (\<lambda>j'. (stream j', map status (tasks j'), client_locks (self j'), yielded j'))
       (run acts j)"

(*DEFS-END*)


section \<open>Double-precision arithmetic: properties of the rounding\<close>

subsection \<open>Rounding to the nearest integer, ties to even\<close>

lemma round_half_even_of_int [simp]: "round_half_even (of_int z) = z"
  by (simp add: round_half_even_def)

lemma round_half_even_bounds: "\<lfloor>x\<rfloor> \<le> round_half_even x \<and> round_half_even x \<le> \<lfloor>x\<rfloor> + 1"
  by (simp add: round_half_even_def Let_def)

lemma round_half_even_error: "\<bar>of_int (round_half_even x) - x\<bar> \<le> 1/2"
proof -
  define r where "r = x - of_int \<lfloor>x\<rfloor>"
  have r: "0 \<le> r" "r < 1" unfolding r_def by linarith+
  have x: "x = of_int \<lfloor>x\<rfloor> + r" by (simp add: r_def)
  have "of_int (round_half_even x) - x = (if r < 1/2 then - r else 1 - r) \<or>
        (r = 1/2 \<and> (of_int (round_half_even x) - x = - r \<or> of_int (round_half_even x) - x = 1 - r))"
    unfolding round_half_even_def Let_def r_def[symmetric] by (subst (3 6 9 12) x) auto
  then show ?thesis using r by (auto simp: abs_if split: if_splits)
qed

lemma round_half_even_mono:
  assumes "x \<le> y"
  shows "round_half_even x \<le> round_half_even y"
proof (cases "\<lfloor>x\<rfloor> = \<lfloor>y\<rfloor>")
  case True
  then show ?thesis using assms by (auto simp: round_half_even_def Let_def)
next
  case False
  then have "\<lfloor>x\<rfloor> + 1 \<le> \<lfloor>y\<rfloor>" using floor_mono[OF assms] by linarith
  then show ?thesis
    using round_half_even_bounds[of x] round_half_even_bounds[of y] by linarith
qed

lemma round_half_even_minus: "round_half_even (- x) = - round_half_even x"
proof (cases "x = of_int \<lfloor>x\<rfloor>")
  case True
  then obtain z where "x = of_int z" by blast
  then have "- x = of_int (- z)" by simp
  then show ?thesis using \<open>x = of_int z\<close> by (metis round_half_even_of_int)
next
  case False
  then have lt: "of_int \<lfloor>x\<rfloor> < x" "x < of_int \<lfloor>x\<rfloor> + 1" by linarith+
  have f: "\<lfloor>- x\<rfloor> = - \<lfloor>x\<rfloor> - 1"
    using lt by (intro floor_unique) auto
  show ?thesis
    unfolding round_half_even_def Let_def f using lt by (auto simp: algebra_simps)
qed

lemma round_half_even_0 [simp]: "round_half_even 0 = 0"
  using round_half_even_of_int[of 0] by simp

lemma round_half_even_nonneg: "0 \<le> x \<Longrightarrow> 0 \<le> round_half_even x"
  using round_half_even_mono[of 0 x] by simp

lemma round_half_even_nonpos: "x \<le> 0 \<Longrightarrow> round_half_even x \<le> 0"
  using round_half_even_mono[of x 0] by simp

subsection \<open>Binades\<close>

lemma halvings_bounds:
  "1 \<le> x \<Longrightarrow>
   halvings k x \<le> k \<and> 2 ^ halvings k x \<le> x \<and> (halvings k x < k \<longrightarrow> x < 2 * 2 ^ halvings k x)"
proof (induction k arbitrary: x)
  case 0
  then show ?case by simp
next
  case (Suc k)
  show ?case
  proof (cases "x < 2")
    case True
    then show ?thesis using Suc.prems by simp
  next
    case False
    then have "1 \<le> x / 2" by simp
    from Suc.IH[OF this] show ?thesis using False by (auto simp: field_simps)
  qed
qed

lemma doublings_bounds:
  "0 \<le> x \<Longrightarrow> x < 1 \<Longrightarrow>
   doublings k x \<le> k \<and> x * 2 ^ doublings k x < 2 \<and> (doublings k x < k \<longrightarrow> 1 \<le> x * 2 ^ doublings k x)"
proof (induction k arbitrary: x)
  case 0
  then show ?case by simp
next
  case (Suc k)
  show ?case
  proof (cases "1 \<le> 2 * x")
    case True
    then have "doublings k (2 * x) = 0" by (cases k) auto
    then show ?thesis using Suc.prems True by simp
  next
    case False
    then have "0 \<le> 2 * x" "2 * x < 1" using Suc.prems by simp_all
    from Suc.IH[OF this] show ?thesis using Suc.prems by (auto simp: field_simps)
  qed
qed

lemma binade_range: "- 1075 \<le> binade x \<and> binade x \<le> 1024"
proof (cases "1 \<le> \<bar>x\<bar>")
  case True
  then show ?thesis using halvings_bounds[OF True, of 1024] by (simp add: binade_def)
next
  case False
  then show ?thesis using doublings_bounds[of "\<bar>x\<bar>" 1075] by (simp add: binade_def)
qed

lemma binade_lower: "- 1075 < binade x \<Longrightarrow> 2 powi binade x \<le> \<bar>x\<bar>"
proof (cases "1 \<le> \<bar>x\<bar>")
  case True
  then show ?thesis using halvings_bounds[OF True, of 1024] by (simp add: binade_def)
next
  case False
  assume a: "- 1075 < binade x"
  define n where "n = doublings 1075 \<bar>x\<bar>"
  have b: "binade x = - int n" using False by (simp add: binade_def n_def)
  have "n < 1075" using a b by simp
  then have "1 \<le> \<bar>x\<bar> * 2 ^ n" using doublings_bounds[of "\<bar>x\<bar>" 1075] False by (simp add: n_def)
  then have "1 / 2 ^ n \<le> \<bar>x\<bar>" by (simp add: field_simps)
  then show ?thesis by (simp add: b power_int_minus field_simps)
qed

lemma binade_upper: "binade x < 1024 \<Longrightarrow> \<bar>x\<bar> < 2 powi (binade x + 1)"
proof (cases "1 \<le> \<bar>x\<bar>")
  case True
  assume a: "binade x < 1024"
  define n where "n = halvings 1024 \<bar>x\<bar>"
  have b: "binade x = int n" using True by (simp add: binade_def n_def)
  have "n < 1024" using a b by simp
  then have "\<bar>x\<bar> < 2 * 2 ^ n" using halvings_bounds[OF True, of 1024] by (simp add: n_def)
  then show ?thesis by (simp add: b power_int_add)
next
  case False
  define n where "n = doublings 1075 \<bar>x\<bar>"
  have b: "binade x = - int n" using False by (simp add: binade_def n_def)
  have "\<bar>x\<bar> * 2 ^ n < 2" using doublings_bounds[of "\<bar>x\<bar>" 1075] False by (simp add: n_def)
  then have "\<bar>x\<bar> < 2 / 2 ^ n" by (simp add: field_simps)
  moreover have "2 powi (1 - int n) = (2::rat) / 2 ^ n" by (simp add: power_int_diff)
  ultimately show ?thesis by (simp add: b)
qed


subsection \<open>Rounding to double precision\<close>

lemma p2_pos [simp]: "0 < (2::rat) powi e"
  by (simp add: zero_less_power_int)

lemma p2_add: "(2::rat) powi a * 2 powi b = 2 powi (a + b)"
  by (simp add: power_int_add)

lemma p2_mono: "a \<le> b \<Longrightarrow> (2::rat) powi a \<le> 2 powi b"
  by (simp add: power_int_increasing)

lemma p2_strict_mono: "a < b \<Longrightarrow> (2::rat) powi a < 2 powi b"
  by (simp add: power_int_strict_increasing)

lemma p2_of_int: "0 \<le> k \<Longrightarrow> (2::rat) powi k = of_int (2 ^ nat k)"
  by (simp add: power_int_nonneg_exp)

lemma p2_div: "(2::rat) powi a / 2 powi b = 2 powi (a - b)"
  by (simp add: power_int_diff)

lemma binade_unique:
  assumes "2 powi e \<le> \<bar>x\<bar>" "\<bar>x\<bar> < 2 powi (e + 1)" "- 1075 < e" "e < 1024"
  shows "binade x = e"
proof (rule ccontr)
  assume ne: "binade x \<noteq> e"
  show False
  proof (cases "binade x < e")
    case True
    then have "\<bar>x\<bar> < 2 powi (binade x + 1)" using binade_upper[of x] assms(4) by simp
    also have "\<dots> \<le> 2 powi e" using True by (intro p2_mono) simp
    finally show False using assms(1) by simp
  next
    case False
    then have gt: "e < binade x" using ne by simp
    then have "2 powi binade x \<le> \<bar>x\<bar>" using binade_lower[of x] assms(3) by simp
    moreover have "2 powi (e + 1) \<le> (2::rat) powi binade x" using gt by (intro p2_mono) simp
    ultimately show False using assms(2) by simp
  qed
qed

lemma binade_minus [simp]: "binade (- x) = binade x"
  by (simp add: binade_def)

lemma ulp_minus [simp]: "ulp (- x) = ulp x"
  by (simp add: ulp_def)

lemma ulp_pos [simp]: "0 < ulp x"
  by (simp add: ulp_def)

lemma round_double_minus: "round_double (- x) = - round_double x"
  by (simp add: round_double_def round_half_even_minus)

lemma round_double_0 [simp]: "round_double 0 = 0"
  by (simp add: round_double_def)

lemma ulp_nonzero [simp]: "ulp x \<noteq> 0"
  by (simp add: ulp_def)

lemma ulp_nonneg [simp]: "0 \<le> ulp x"
  using ulp_pos[of x] by (rule less_imp_le)

lemma abs_ulp [simp]: "\<bar>ulp x\<bar> = ulp x"
  by (rule abs_of_nonneg) simp

lemma round_double_nonneg:
  assumes "0 \<le> x"
  shows "0 \<le> round_double x"
proof -
  have "0 \<le> x / ulp x" using assms by (intro divide_nonneg_pos) simp_all
  then have "0 \<le> round_half_even (x / ulp x)" by (rule round_half_even_nonneg)
  then show ?thesis by (simp add: round_double_def)
qed

lemma round_double_nonpos:
  assumes "x \<le> 0"
  shows "round_double x \<le> 0"
proof -
  have "x / ulp x \<le> 0" using assms by (intro divide_nonpos_pos) simp_all
  then have "round_half_even (x / ulp x) \<le> 0" by (rule round_half_even_nonpos)
  then show ?thesis by (simp add: round_double_def mult_le_0_iff)
qed

lemma round_double_error: "\<bar>round_double x - x\<bar> \<le> ulp x / 2"
proof -
  have "round_double x - x = (of_int (round_half_even (x / ulp x)) - x / ulp x) * ulp x"
    by (simp add: round_double_def algebra_simps)
  then have "\<bar>round_double x - x\<bar> = \<bar>of_int (round_half_even (x / ulp x)) - x / ulp x\<bar> * ulp x"
    by (simp add: abs_mult)
  also have "\<dots> \<le> 1/2 * ulp x"
    using round_half_even_error[of "x / ulp x"] by (intro mult_right_mono) simp_all
  finally show ?thesis by simp
qed

lemma round_double_grid:
  assumes x: "x = of_int m * 2 powi j" and m: "\<bar>m\<bar> < 2 ^ 53" and j: "- 1074 \<le> j"
  shows "round_double x = x"
proof -
  define ue where "ue = max (binade x - 52) (- 1074)"
  have "binade x - 52 \<le> j"
  proof (rule ccontr)
    assume "\<not> binade x - 52 \<le> j"
    then have b: "j + 53 \<le> binade x" by simp
    then have "2 powi binade x \<le> \<bar>x\<bar>" using binade_lower[of x] j by simp
    also have "\<bar>x\<bar> = of_int \<bar>m\<bar> * 2 powi j" by (simp add: x abs_mult)
    also have "\<dots> < 2 ^ 53 * 2 powi j"
    proof -
      have "(of_int \<bar>m\<bar> :: rat) < of_int (2 ^ 53)" using m by (simp only: of_int_less_iff)
      then show ?thesis by simp
    qed
    also have "\<dots> = 2 powi (j + 53)" by (simp add: power_int_add)
    also have "\<dots> \<le> 2 powi binade x" using b by (rule p2_mono)
    finally show False by simp
  qed
  then have ue: "ue \<le> j" using j by (simp add: ue_def max_def)
  have u: "ulp x = 2 powi ue" by (simp add: ulp_def ue_def)
  have "x / 2 powi ue = of_int m * 2 powi (j - ue)" by (simp add: x power_int_diff)
  also have "\<dots> = of_int (m * 2 ^ nat (j - ue))" using ue by (simp add: p2_of_int)
  finally have "round_half_even (x / ulp x) = m * 2 ^ nat (j - ue)"
    unfolding u by (simp only: round_half_even_of_int)
  then have "round_double x = of_int (m * 2 ^ nat (j - ue)) * 2 powi ue"
    by (simp add: round_double_def u)
  also have "\<dots> = of_int m * (2 powi (j - ue) * 2 powi ue)" using ue by (simp add: p2_of_int)
  also have "\<dots> = x" by (simp add: p2_add x)
  finally show ?thesis .
qed

lemma round_double_of_int: "\<bar>m\<bar> < 2 ^ 53 \<Longrightarrow> round_double (of_int m) = of_int m"
  using round_double_grid[of "of_int m" m 0] by simp

lemma binade_mono:
  assumes "\<bar>x\<bar> \<le> \<bar>y\<bar>"
  shows "binade x \<le> binade y"
proof (rule ccontr)
  assume "\<not> binade x \<le> binade y"
  then have gt: "binade y < binade x" by simp
  then have "binade y < 1024" "- 1075 < binade x" using binade_range[of x] binade_range[of y] by simp_all
  then have "\<bar>y\<bar> < 2 powi (binade y + 1)" "2 powi binade x \<le> \<bar>x\<bar>"
    using binade_upper[of y] binade_lower[of x] by simp_all
  moreover have "2 powi (binade y + 1) \<le> (2::rat) powi binade x" using gt by (intro p2_mono) simp
  ultimately show False using assms by simp
qed

lemma round_double_mono_nonneg:
  assumes "0 \<le> x" "x \<le> y"
  shows "round_double x \<le> round_double y"
proof -
  define ux where "ux = max (binade x - 52) (- 1074)"
  define uy where "uy = max (binade y - 52) (- 1074)"
  have bm: "binade x \<le> binade y" using assms by (intro binade_mono) simp
  then have le: "ux \<le> uy" by (simp add: ux_def uy_def max_def)
  have u: "ulp x = 2 powi ux" "ulp y = 2 powi uy" by (simp_all add: ulp_def ux_def uy_def)
  show ?thesis
  proof (cases "ux = uy")
    case True
    have "x / 2 powi ux \<le> y / 2 powi ux" using assms by (simp add: divide_right_mono)
    then have "round_half_even (x / 2 powi ux) \<le> round_half_even (y / 2 powi ux)"
      by (rule round_half_even_mono)
    then show ?thesis by (simp add: round_double_def u True)
  next
    case False
    then have lt: "ux < uy" using le by simp
    then have uy: "uy = binade y - 52" "- 1022 < binade y"
      by (simp_all add: ux_def uy_def max_def split: if_splits)
    have ex: "binade x < binade y"
      using lt by (simp add: ux_def uy_def max_def split: if_splits)
    define b where "b = (2::rat) powi binade y"
    have b_le: "b \<le> y" using binade_lower[of y] uy(2) assms by (simp add: b_def)
    have "b / 2 powi uy = of_int (2 ^ 52)" by (simp add: b_def p2_div uy(1))
    moreover have "b / 2 powi uy \<le> y / 2 powi uy" using b_le by (simp add: divide_right_mono)
    ultimately have "2 ^ 52 \<le> round_half_even (y / 2 powi uy)"
      using round_half_even_mono[of "b / 2 powi uy" "y / 2 powi uy"]
      by (simp only: round_half_even_of_int)
    then have "(of_int (2 ^ 52) :: rat) \<le> of_int (round_half_even (y / 2 powi uy))"
      by (simp only: of_int_le_iff)
    then have "of_int (2 ^ 52) * 2 powi uy \<le> round_double y"
      by (simp add: round_double_def u)
    moreover have "of_int (2 ^ 52) * 2 powi uy = b" by (simp add: b_def uy(1) power_int_diff)
    ultimately have 1: "b \<le> round_double y" by simp
    have "binade x < 1024" using ex binade_range[of y] by simp
    then have "x < 2 powi (binade x + 1)" using binade_upper[of x] assms by simp
    also have "\<dots> \<le> b" unfolding b_def using ex by (intro p2_mono) simp
    finally have xb: "x \<le> b" by simp
    have ge: "0 \<le> binade y - ux" using lt uy(1) by simp
    have "b / 2 powi ux = of_int (2 ^ nat (binade y - ux))"
      using ge by (simp add: b_def p2_div p2_of_int)
    moreover have "x / 2 powi ux \<le> b / 2 powi ux" using xb by (simp add: divide_right_mono)
    ultimately have "round_half_even (x / 2 powi ux) \<le> 2 ^ nat (binade y - ux)"
      using round_half_even_mono[of "x / 2 powi ux" "b / 2 powi ux"]
      by (simp only: round_half_even_of_int)
    then have "(of_int (round_half_even (x / 2 powi ux)) :: rat) \<le> of_int (2 ^ nat (binade y - ux))"
      by (simp only: of_int_le_iff)
    then have "round_double x \<le> of_int (2 ^ nat (binade y - ux)) * 2 powi ux"
      by (simp add: round_double_def u)
    moreover have "of_int (2 ^ nat (binade y - ux)) * 2 powi ux = b"
    proof -
      have "(of_int (2 ^ nat (binade y - ux)) :: rat) = 2 powi (binade y - ux)"
        using ge by (simp add: power_int_nonneg_exp)
      then show ?thesis by (simp add: p2_add b_def)
    qed
    ultimately have 2: "round_double x \<le> b" by simp
    show ?thesis using 1 2 by simp
  qed
qed

lemma round_double_mono:
  assumes "x \<le> y"
  shows "round_double x \<le> round_double y"
proof (cases "0 \<le> x")
  case True
  then show ?thesis using assms by (rule round_double_mono_nonneg)
next
  case False
  show ?thesis
  proof (cases "0 \<le> y")
    case True
    then show ?thesis using False round_double_nonpos[of x] round_double_nonneg[of y] by simp
  next
    case y: False
    then have "round_double (- y) \<le> round_double (- x)"
      using assms by (intro round_double_mono_nonneg) simp_all
    then show ?thesis by (simp add: round_double_minus)
  qed
qed


lemma binade_less:
  assumes "\<bar>x\<bar> < 2 powi k" "- 1075 < k"
  shows "binade x < k"
proof (rule ccontr)
  assume "\<not> binade x < k"
  then have k: "k \<le> binade x" by simp
  then have "- 1075 < binade x" using assms(2) by simp
  then have "2 powi binade x \<le> \<bar>x\<bar>" by (rule binade_lower)
  moreover have "(2::rat) powi k \<le> 2 powi binade x" using k by (rule p2_mono)
  ultimately show False using assms(1) by simp
qed

lemma ulp_le:
  assumes "\<bar>x\<bar> < 2 powi k" "- 1021 \<le> k"
  shows "ulp x \<le> 2 powi (k - 53)"
proof -
  have "binade x < k" using binade_less[OF assms(1)] assms(2) by simp
  then have "max (binade x - 52) (- 1074) \<le> k - 53" using assms(2) by simp
  then show ?thesis unfolding ulp_def by (rule p2_mono)
qed

lemma round_double_rel:
  assumes "1 \<le> x"
  shows "x * (1 - 1 / 2 ^ 53) \<le> round_double x"
proof -
  have ax: "\<bar>x\<bar> = x" using assms by simp
  have b0: "0 \<le> binade x" using assms by (simp add: binade_def)
  then have "2 powi binade x \<le> \<bar>x\<bar>" using binade_lower[of x] by simp
  then have lo: "2 powi binade x \<le> x" using ax by simp
  have "ulp x = 2 powi (binade x - 52)" using b0 by (simp add: ulp_def max_def)
  also have "\<dots> = 2 powi binade x / 2 powi 52" by (rule p2_div[symmetric])
  also have "\<dots> \<le> x / 2 powi 52" using lo by (rule divide_right_mono) simp
  finally have "ulp x \<le> x / 2 powi 52" .
  moreover have "(2::rat) powi 52 = 2 ^ 52" by simp
  ultimately have u: "ulp x \<le> x / 2 ^ 52" by (simp only:)
  have "\<bar>round_double x - x\<bar> \<le> ulp x / 2" by (rule round_double_error)
  then have "x - ulp x / 2 \<le> round_double x" by linarith
  moreover have "x - (x / 2 ^ 52) / 2 \<le> x - ulp x / 2" using u by simp
  ultimately show ?thesis by (simp add: algebra_simps)
qed

lemma round_double_abs_le:
  assumes "\<bar>x\<bar> \<le> g" "round_double g = g"
  shows "\<bar>round_double x\<bar> \<le> g"
proof -
  have "- g \<le> x" "x \<le> g" using assms(1) by linarith+
  then have "round_double (- g) \<le> round_double x" "round_double x \<le> round_double g"
    by (simp_all add: round_double_mono)
  then show ?thesis using assms(2) by (simp add: round_double_minus abs_le_iff)
qed

lemma round_double_p2: "- 1074 \<le> j \<Longrightarrow> round_double (2 powi j) = 2 powi j"
  using round_double_grid[of "2 powi j" 1 j] by simp

lemma round_double_pow2: "round_double (2 ^ n) = 2 ^ n"
  using round_double_p2[of "int n"] by simp

lemma fround_Fin:
  assumes "\<bar>x\<bar> \<le> g" "round_double g = g" "g < 2 ^ 1024"
  shows "fround x = Fin (round_double x)"
proof -
  have "\<bar>round_double x\<bar> \<le> g" using assms(1,2) by (rule round_double_abs_le)
  then have "\<bar>round_double x\<bar> < 2 ^ 1024" using assms(3) by simp
  then show ?thesis by (simp add: fround_def Let_def abs_less_iff)
qed

lemma fround_cases:
  "fround x = Fin (round_double x) \<or> fround x = PInf \<or> fround x = NInf"
  by (simp add: fround_def Let_def)

lemma fround_not_NaN [simp]: "fround x \<noteq> NaN"
  by (simp add: fround_def Let_def)

lemma float_of_int_exact: "\<bar>i\<bar> < 2 ^ 53 \<Longrightarrow> float_of_int i = Inr (Fin (of_int i))"
proof -
  assume a: "\<bar>i\<bar> < 2 ^ 53"
  have r: "round_double (of_int i) = of_int i" using a by (rule round_double_of_int)
  have "\<bar>of_int i :: rat\<bar> < 2 ^ 53" using a by (metis of_int_abs of_int_less_numeral_power_cancel_iff)
  then have "\<bar>of_int i :: rat\<bar> < 2 ^ 1024" by (rule less_le_trans) simp
  then show ?thesis by (simp add: float_of_int_def Let_def r)
qed


section \<open>Resource locks\<close>

lemma isinstance_FileNotFoundError:
  "isinstance e [FileNotFoundError] \<Longrightarrow> isinstance e [BlockingIOError, OSError]"
  by (cases e) (auto simp: isinstance_def)

lemma isinstance_OSError_iff:
  "isinstance e [BlockingIOError, OSError] \<longleftrightarrow> isinstance e [OSError]"
  by (cases e) (auto simp: isinstance_def)

lemma acquire_lock_cases:
  "acquire_lock os number (lf, w) =
     (let w1 = emit (Open number) (w\<lparr>clock := clock w + 1\<rparr>);
          fd = next_fd w;
          w2 = w1\<lparr>open_fds := insert fd (open_fds w1), next_fd := fd + 1\<rparr>
      in case os (clock w) of
           LockGranted \<Rightarrow> (Inr True, lf(number \<mapsto> fd), emit (Print_acquired number) w2)
         | OpenRaises e \<Rightarrow>
             if isinstance e [OSError] then (Inr False, lf, w1) else (Inl e, lf, w1)
         | LockRaises e \<Rightarrow>
             if isinstance e [OSError]
             then (Inr False, lf, emit (Close fd) (w2\<lparr>open_fds := open_fds w2 - {fd}\<rparr>))
             else (Inl e, lf, w2))"
proof (cases "os (clock w)")
  case (OpenRaises e)
  then show ?thesis
    using isinstance_FileNotFoundError[of e]
    by (auto simp: acquire_lock_def open_and_lock_def close_file_def Let_def
        isinstance_OSError_iff)
next
  case (LockRaises e)
  then show ?thesis
    using isinstance_FileNotFoundError[of e]
    by (auto simp: acquire_lock_def open_and_lock_def close_file_def Let_def
        isinstance_OSError_iff)
next
  case LockGranted
  then show ?thesis
    by (simp add: acquire_lock_def open_and_lock_def Let_def)
qed

text \<open>
  Claim C10. Whatever the system answers, \<open>_acquire_lock\<close> makes exactly one attempt to open
  the lock file and never prints the message of its second handler: an exception that is a
  \<^verbatim>\<open>FileNotFoundError\<close> is an \<^verbatim>\<open>OSError\<close> and is caught by the first handler. When the
  exception raised by \<^verbatim>\<open>open\<close> or by the locking call is an \<^verbatim>\<open>OSError\<close> (the only kind these
  calls raise), the function returns: \<open>True\<close> with the open file recorded under the id in
  \<open>locked_files\<close>, or \<open>False\<close> with \<open>locked_files\<close> unchanged and no file left open.
\<close>

theorem acquire_lock_total:
  assumes "acquire_lock os number (lf, w) = (r, lf', w')"
  shows "isinstance FileNotFoundError [BlockingIOError, OSError] \<and>
         clock w' = clock w + 1 \<and>
         (\<exists>evs. trace w' = trace w @ Open number # evs \<and>
                set evs \<subseteq> {Close (next_fd w), Print_acquired number}) \<and>
         ((\<forall>e. os (clock w) = OpenRaises e \<or> os (clock w) = LockRaises e
                \<longrightarrow> isinstance e [OSError]) \<and> next_fd w \<notin> open_fds w \<longrightarrow>
            r = Inr True \<and> os (clock w) = LockGranted \<and> lf' = lf(number \<mapsto> next_fd w) \<and>
              open_fds w' = insert (next_fd w) (open_fds w) \<or>
            r = Inr False \<and> os (clock w) \<noteq> LockGranted \<and> lf' = lf \<and>
              open_fds w' = open_fds w)"
proof (cases "os (clock w)")
  case (OpenRaises e)
  then show ?thesis using assms
    by (auto simp: acquire_lock_cases Let_def emit_def isinstance_def split: if_splits)
next
  case (LockRaises e)
  then show ?thesis using assms
    by (auto simp: acquire_lock_cases Let_def emit_def isinstance_def split: if_splits)
next
  case LockGranted
  then show ?thesis using assms
    by (auto simp: acquire_lock_cases Let_def emit_def isinstance_def split: if_splits)
qed

theorem acquire_lock_total_witness:
  "acquire_lock os_missing_dir 8190 (Map.empty, world0) =
     (Inr False, Map.empty, world0\<lparr>clock := 1, trace := [Open 8190]\<rparr>)"
proof -
  obtain r lf' w' where a: "acquire_lock os_missing_dir 8190 (Map.empty, world0) = (r, lf', w')"
    by (metis prod_cases3)
  have "r = Inr True \<and> os_missing_dir (clock world0) = LockGranted \<and>
          lf' = Map.empty(8190 \<mapsto> next_fd world0) \<and>
          open_fds w' = insert (next_fd world0) (open_fds world0) \<or>
        r = Inr False \<and> os_missing_dir (clock world0) \<noteq> LockGranted \<and> lf' = Map.empty \<and>
          open_fds w' = open_fds world0"
    using acquire_lock_total[OF a]
    by (simp add: os_missing_dir_def isinstance_def world0_def)
  then have "r = Inr False" by (simp add: os_missing_dir_def)
  moreover have "acquire_lock os_missing_dir 8190 (Map.empty, world0) =
     (Inr False, Map.empty, world0\<lparr>clock := 1, trace := [Open 8190]\<rparr>)"
    by (simp add: acquire_lock_cases Let_def os_missing_dir_def isinstance_def emit_def world0_def)
  ultimately show ?thesis by simp
qed


lemma tries_append [simp]: "tries (xs @ ys) = tries xs @ tries ys"
  by (simp add: tries_def)

lemma sleep_uniform_eq:
  "sleep_uniform rnd (lf, w) =
     (lf, w\<lparr>draws := draws w + 1, trace := trace w @ [Sleep (delay rnd (draws w))]\<rparr>)"
  by (simp add: sleep_uniform_def uniform_def emit_def delay_def)

lemma acquire_lock_world:
  assumes "acquire_lock os p (lf, w) = (r, lf', w')"
  shows "clock w' = clock w + 1 \<and> draws w' = draws w \<and>
         tries (trace w') = tries (trace w) @ [Open p]"
  using assms
  by (cases "os (clock w)")
     (auto simp: acquire_lock_cases Let_def emit_def tries_def split: if_splits)

lemma acquire_lock_result:
  assumes "acquire_lock os p (lf, w) = (r, lf', w')"
    and "\<forall>e. os (clock w) = OpenRaises e \<or> os (clock w) = LockRaises e \<longrightarrow> isinstance e [OSError]"
  shows "r = Inr True \<and> os (clock w) = LockGranted \<and> lf' = lf(p \<mapsto> next_fd w) \<and>
           next_fd w \<in> open_fds w' \<or>
         r = Inr False \<and> os (clock w) \<noteq> LockGranted \<and> lf' = lf"
  using assms
  by (cases "os (clock w)")
     (auto simp: acquire_lock_cases Let_def emit_def split: if_splits)

lemma sweep_append:
  "sweep os rnd (xs @ ys) s =
     (case sweep os rnd xs s of
        (Inr None, s') \<Rightarrow> sweep os rnd ys s'
      | (Inr (Some p), s') \<Rightarrow> (Inr (Some p), s')
      | (Inl e, s') \<Rightarrow> (Inl e, s'))"
  by (induction xs arbitrary: s) (auto split: prod.splits sum.splits bool.splits option.splits)

lemma attempts_sweep:
  "attempts os rnd n ports s =
     (case sweep os rnd (concat (replicate n ports)) s of
        (Inl e, s') \<Rightarrow> (Inl e, s')
      | (Inr (Some p), s') \<Rightarrow> (Inr p, s')
      | (Inr None, s') \<Rightarrow> (Inl RuntimeError, s'))"
  by (induction n arbitrary: s)
     (auto simp: sweep_append split: prod.splits sum.splits option.splits)

lemma sweep_Cons_step:
  assumes "sleep_uniform rnd (lf, w) = (lf, ws)" "acquire_lock os p (lf, ws) = (r1, lf1, w1)"
  shows "sweep os rnd (p # ps) (lf, w) =
           (case r1 of
              Inl e \<Rightarrow> (Inl e, lf1, w1)
            | Inr True \<Rightarrow> (Inr (Some p), lf1, w1)
            | Inr False \<Rightarrow> sweep os rnd ps (lf1, w1))"
  using assms by (simp split: sum.splits bool.splits)

lemma sweep_trace:
  assumes "sweep os rnd ps (lf, w) = (r, lf', w')"
  shows "\<exists>n. clock w' = clock w + n \<and> draws w' = draws w + n \<and> n \<le> length ps \<and>
             tries (trace w') = tries (trace w) @
               concat (map (\<lambda>i. [Sleep (delay rnd (draws w + i)), Open (ps ! i)]) [0..<n])"
  using assms
proof (induction ps arbitrary: lf w)
  case Nil
  then show ?case by auto
next
  case (Cons p ps)
  define ws where "ws = w\<lparr>draws := draws w + 1, trace := trace w @ [Sleep (delay rnd (draws w))]\<rparr>"
  have sl: "sleep_uniform rnd (lf, w) = (lf, ws)" by (simp add: sleep_uniform_eq ws_def)
  obtain r1 lf1 w1 where a: "acquire_lock os p (lf, ws) = (r1, lf1, w1)" by (metis prod_cases3)
  note step = sweep_Cons_step[OF sl a, of ps]
  have w1: "clock w1 = clock w + 1" "draws w1 = draws w + 1"
    "tries (trace w1) = tries (trace w) @ [Sleep (delay rnd (draws w)), Open p]"
    using acquire_lock_world[OF a] by (simp_all add: ws_def tries_def)
  show ?case
  proof (cases "r1 = Inr False")
    case True
    then have "sweep os rnd ps (lf1, w1) = (r, lf', w')"
      using Cons.prems(1) step by simp
    from Cons.IH[OF this] obtain n where n:
      "clock w' = clock w1 + n" "draws w' = draws w1 + n" "n \<le> length ps"
      "tries (trace w') = tries (trace w1) @
         concat (map (\<lambda>i. [Sleep (delay rnd (draws w1 + i)), Open (ps ! i)]) [0..<n])"
      by blast
    have "concat (map (\<lambda>i. [Sleep (delay rnd (draws w + i)), Open ((p # ps) ! i)]) [0..<Suc n])
          = [Sleep (delay rnd (draws w)), Open p] @
            concat (map (\<lambda>i. [Sleep (delay rnd (draws w1 + i)), Open (ps ! i)]) [0..<n])"
      by (simp add: map_upt_Suc w1(2) del: upt_Suc)
    then have "tries (trace w') = tries (trace w) @
        concat (map (\<lambda>i. [Sleep (delay rnd (draws w + i)), Open ((p # ps) ! i)]) [0..<Suc n])"
      using n(4) w1(3) by simp
    moreover have "clock w' = clock w + Suc n" "draws w' = draws w + Suc n" "Suc n \<le> length (p # ps)"
      using n w1 by simp_all
    ultimately show ?thesis by blast
  next
    case False
    then have "w' = w1"
      using Cons.prems(1) step by (auto split: sum.splits bool.splits)
    then have "clock w' = clock w + 1 \<and> draws w' = draws w + 1 \<and> 1 \<le> length (p # ps) \<and>
      tries (trace w') = tries (trace w) @
        concat (map (\<lambda>i. [Sleep (delay rnd (draws w + i)), Open ((p # ps) ! i)]) [0..<1])"
      using w1 by simp
    then show ?thesis by blast
  qed
qed

lemma sweep_result:
  assumes "sweep os rnd ps (lf, w) = (r, lf', w')"
    and "\<forall>k<length ps. \<forall>e. os (clock w + k) = OpenRaises e \<or> os (clock w + k) = LockRaises e
           \<longrightarrow> isinstance e [OSError]"
  shows "\<exists>n. clock w' = clock w + n \<and>
           (r = Inr None \<and> n = length ps \<and> (\<forall>k<n. os (clock w + k) \<noteq> LockGranted) \<and> lf' = lf \<or>
            (\<exists>port fd. r = Inr (Some port) \<and> 0 < n \<and> n \<le> length ps \<and> port = ps ! (n - 1) \<and>
               os (clock w + (n - 1)) = LockGranted \<and>
               (\<forall>k<n - 1. os (clock w + k) \<noteq> LockGranted) \<and>
               lf' = lf(port \<mapsto> fd) \<and> fd \<in> open_fds w'))"
  using assms
proof (induction ps arbitrary: lf w)
  case Nil
  then show ?case by auto
next
  case (Cons p ps)
  define ws where "ws = w\<lparr>draws := draws w + 1, trace := trace w @ [Sleep (delay rnd (draws w))]\<rparr>"
  have sl: "sleep_uniform rnd (lf, w) = (lf, ws)" by (simp add: sleep_uniform_eq ws_def)
  obtain r1 lf1 w1 where a: "acquire_lock os p (lf, ws) = (r1, lf1, w1)" by (metis prod_cases3)
  note step = sweep_Cons_step[OF sl a, of ps]
  have cw: "clock ws = clock w" by (simp add: ws_def)
  have w1: "clock w1 = clock w + 1" using acquire_lock_world[OF a] by (simp add: ws_def)
  have ose0: "\<forall>e. os (clock ws) = OpenRaises e \<or> os (clock ws) = LockRaises e \<longrightarrow> isinstance e [OSError]"
    using Cons.prems(2) cw by (metis add.right_neutral length_greater_0_conv list.distinct(1))
  have res: "r1 = Inr True \<and> os (clock w) = LockGranted \<and> lf1 = lf(p \<mapsto> next_fd ws) \<and>
           next_fd ws \<in> open_fds w1 \<or>
         r1 = Inr False \<and> os (clock w) \<noteq> LockGranted \<and> lf1 = lf"
    using acquire_lock_result[OF a ose0] cw by simp
  show ?case
  proof (cases "r1 = Inr False")
    case True
    then have sw: "sweep os rnd ps (lf1, w1) = (r, lf', w')"
      using Cons.prems(1) step by simp
    have ng: "os (clock w) \<noteq> LockGranted" and lf1: "lf1 = lf" using res True by auto
    have ose: "\<forall>k<length ps. \<forall>e. os (clock w1 + k) = OpenRaises e \<or> os (clock w1 + k) = LockRaises e
           \<longrightarrow> isinstance e [OSError]"
    proof (intro allI impI)
      fix k e assume "k < length ps"
        "os (clock w1 + k) = OpenRaises e \<or> os (clock w1 + k) = LockRaises e"
      then show "isinstance e [OSError]"
        using Cons.prems(2)[rule_format, of "Suc k" e] w1 by simp
    qed
    from Cons.IH[OF sw ose] obtain n where n: "clock w' = clock w1 + n"
      and d: "r = Inr None \<and> n = length ps \<and> (\<forall>k<n. os (clock w1 + k) \<noteq> LockGranted) \<and> lf' = lf1 \<or>
            (\<exists>port fd. r = Inr (Some port) \<and> 0 < n \<and> n \<le> length ps \<and> port = ps ! (n - 1) \<and>
               os (clock w1 + (n - 1)) = LockGranted \<and>
               (\<forall>k<n - 1. os (clock w1 + k) \<noteq> LockGranted) \<and>
               lf' = lf1(port \<mapsto> fd) \<and> fd \<in> open_fds w')"
      by blast
    have shift: "(\<forall>k<m. os (clock w1 + k) \<noteq> LockGranted) \<Longrightarrow>
                 (\<forall>k<Suc m. os (clock w + k) \<noteq> LockGranted)" for m
    proof (intro allI impI)
      fix k assume h: "\<forall>k<m. os (clock w1 + k) \<noteq> LockGranted" "k < Suc m"
      show "os (clock w + k) \<noteq> LockGranted"
      proof (cases k)
        case 0
        then show ?thesis using ng by simp
      next
        case (Suc k')
        then show ?thesis using h w1 by (simp add: add.commute add.left_commute)
      qed
    qed
    have c: "clock w' = clock w + Suc n" using n w1 by simp
    from d show ?thesis
    proof
      assume h: "r = Inr None \<and> n = length ps \<and> (\<forall>k<n. os (clock w1 + k) \<noteq> LockGranted) \<and> lf' = lf1"
      then have "r = Inr None \<and> Suc n = length (p # ps) \<and>
                 (\<forall>k<Suc n. os (clock w + k) \<noteq> LockGranted) \<and> lf' = lf"
        using shift[of n] lf1 by simp
      then show ?thesis using c by blast
    next
      assume "\<exists>port fd. r = Inr (Some port) \<and> 0 < n \<and> n \<le> length ps \<and> port = ps ! (n - 1) \<and>
               os (clock w1 + (n - 1)) = LockGranted \<and>
               (\<forall>k<n - 1. os (clock w1 + k) \<noteq> LockGranted) \<and>
               lf' = lf1(port \<mapsto> fd) \<and> fd \<in> open_fds w'"
      then obtain port fd where h: "r = Inr (Some port)" "0 < n" "n \<le> length ps"
        "port = ps ! (n - 1)" "os (clock w1 + (n - 1)) = LockGranted"
        "\<forall>k<n - 1. os (clock w1 + k) \<noteq> LockGranted" "lf' = lf1(port \<mapsto> fd)" "fd \<in> open_fds w'"
        by blast
      obtain m where m: "n = Suc m" using h(2) by (cases n) auto
      have "r = Inr (Some port) \<and> 0 < Suc n \<and> Suc n \<le> length (p # ps) \<and>
            port = (p # ps) ! (Suc n - 1) \<and> os (clock w + (Suc n - 1)) = LockGranted \<and>
            (\<forall>k<Suc n - 1. os (clock w + k) \<noteq> LockGranted) \<and>
            lf' = lf(port \<mapsto> fd) \<and> fd \<in> open_fds w'"
        using h shift[of m] m w1 lf1 by (simp add: add.commute add.left_commute)
      then show ?thesis using c by blast
    qed
  next
    case False
    then have t: "r1 = Inr True" "os (clock w) = LockGranted" "lf1 = lf(p \<mapsto> next_fd ws)"
      "next_fd ws \<in> open_fds w1"
      using res by auto
    then have "r = Inr (Some p)" "lf' = lf1" "w' = w1"
      using Cons.prems(1) step by auto
    then have "clock w' = clock w + 1 \<and> r = Inr (Some p) \<and> (0::nat) < 1 \<and> 1 \<le> length (p # ps) \<and>
       p = (p # ps) ! (1 - 1) \<and> os (clock w + (1 - 1)) = LockGranted \<and>
       (\<forall>k<1 - 1. os (clock w + k) \<noteq> LockGranted) \<and>
       lf' = lf(p \<mapsto> next_fd ws) \<and> next_fd ws \<in> open_fds w'"
      using t w1 by simp
    then show ?thesis by blast
  qed
qed


lemma length_schedule: "length (concat (replicate n ports)) = n * length ports"
  by (induction n) auto

lemma set_schedule: "set (concat (replicate n ports)) \<subseteq> set ports"
  by (induction n) auto

lemma delay_bounds: "0 \<le> rnd i \<Longrightarrow> rnd i < 1 \<Longrightarrow> 1/10 \<le> delay rnd i \<and> delay rnd i < 1/2"
  by (simp add: delay_def)

text \<open>
  Claim C8. \<open>_next_port\<close> goes through the configured ids in order, the whole range up to
  10 times, sleeping for a random delay between 0.1 and 0.5 before each try and trying the
  non-blocking acquire on each id. It raises \<^verbatim>\<open>RuntimeError\<close> exactly when none of the
  \<open>10 * length ports\<close> tries is granted (and then holds no new lock); otherwise it
  returns the id of the first try that is granted, with the lock file of that id recorded in
  \<open>locked_files\<close> and open. (The system calls raise nothing but \<^verbatim>\<open>OSError\<close>, and
  \<^verbatim>\<open>random()\<close> is in \<open>[0, 1)\<close>.)
\<close>

theorem next_port_sweeps:
  assumes np: "next_port os rnd ports (lf, w) = (r, lf', w')"
    and sched: "schedule = concat (replicate 10 ports)"
    and ose: "\<forall>k<length schedule. \<forall>e.
                os (clock w + k) = OpenRaises e \<or> os (clock w + k) = LockRaises e
                \<longrightarrow> isinstance e [OSError]"
    and rnd: "\<forall>i. 0 \<le> rnd i \<and> rnd i < 1"
  shows "length schedule = 10 * length ports \<and>
         (\<exists>n. clock w' = clock w + n \<and> n \<le> length schedule \<and>
            tries (trace w') = tries (trace w) @
              concat (map (\<lambda>i. [Sleep (delay rnd (draws w + i)), Open (schedule ! i)]) [0..<n]) \<and>
            (\<forall>i. 1/10 \<le> delay rnd i \<and> delay rnd i < 1/2) \<and>
            (r = Inl RuntimeError \<and> n = length schedule \<and>
               (\<forall>k<n. os (clock w + k) \<noteq> LockGranted) \<and> lf' = lf \<or>
             (\<exists>port fd. r = Inr port \<and> 0 < n \<and> port = schedule ! (n - 1) \<and> port \<in> set ports \<and>
                os (clock w + (n - 1)) = LockGranted \<and>
                (\<forall>k<n - 1. os (clock w + k) \<noteq> LockGranted) \<and>
                lf' = lf(port \<mapsto> fd) \<and> fd \<in> open_fds w')))"
proof -
  obtain r0 lf0 w0 where sw: "sweep os rnd schedule (lf, w) = (r0, lf0, w0)"
    by (metis prod_cases3)
  have np': "(r, lf', w') =
     (case r0 of Inl e \<Rightarrow> (Inl e, lf0, w0)
      | Inr (Some p) \<Rightarrow> (Inr p, lf0, w0)
      | Inr None \<Rightarrow> (Inl RuntimeError, lf0, w0))"
    using np sw by (simp add: next_port_def attempts_sweep sched split: sum.splits option.splits)
  then have st: "lf' = lf0" "w' = w0" by (auto split: sum.splits option.splits)
  from sweep_trace[OF sw] obtain n where n: "clock w0 = clock w + n" "n \<le> length schedule"
    "tries (trace w0) = tries (trace w) @
       concat (map (\<lambda>i. [Sleep (delay rnd (draws w + i)), Open (schedule ! i)]) [0..<n])"
    by blast
  from sweep_result[OF sw ose] obtain n' where n': "clock w0 = clock w + n'"
    and d: "r0 = Inr None \<and> n' = length schedule \<and> (\<forall>k<n'. os (clock w + k) \<noteq> LockGranted) \<and>
              lf0 = lf \<or>
            (\<exists>port fd. r0 = Inr (Some port) \<and> 0 < n' \<and> n' \<le> length schedule \<and>
               port = schedule ! (n' - 1) \<and> os (clock w + (n' - 1)) = LockGranted \<and>
               (\<forall>k<n' - 1. os (clock w + k) \<noteq> LockGranted) \<and>
               lf0 = lf(port \<mapsto> fd) \<and> fd \<in> open_fds w0)"
    by blast
  have nn: "n' = n" using n(1) n' by simp
  have db: "\<forall>i. 1/10 \<le> delay rnd i \<and> delay rnd i < 1/2" using delay_bounds rnd by blast
  have res: "r = Inl RuntimeError \<and> n = length schedule \<and>
               (\<forall>k<n. os (clock w + k) \<noteq> LockGranted) \<and> lf' = lf \<or>
             (\<exists>port fd. r = Inr port \<and> 0 < n \<and> port = schedule ! (n - 1) \<and> port \<in> set ports \<and>
                os (clock w + (n - 1)) = LockGranted \<and>
                (\<forall>k<n - 1. os (clock w + k) \<noteq> LockGranted) \<and>
                lf' = lf(port \<mapsto> fd) \<and> fd \<in> open_fds w')"
    using d
  proof
    assume "r0 = Inr None \<and> n' = length schedule \<and> (\<forall>k<n'. os (clock w + k) \<noteq> LockGranted) \<and>
              lf0 = lf"
    then show ?thesis using np' nn st by simp
  next
    assume "\<exists>port fd. r0 = Inr (Some port) \<and> 0 < n' \<and> n' \<le> length schedule \<and>
               port = schedule ! (n' - 1) \<and> os (clock w + (n' - 1)) = LockGranted \<and>
               (\<forall>k<n' - 1. os (clock w + k) \<noteq> LockGranted) \<and>
               lf0 = lf(port \<mapsto> fd) \<and> fd \<in> open_fds w0"
    then obtain port fd where h: "r0 = Inr (Some port)" "0 < n'" "n' \<le> length schedule"
      "port = schedule ! (n' - 1)" "os (clock w + (n' - 1)) = LockGranted"
      "\<forall>k<n' - 1. os (clock w + k) \<noteq> LockGranted" "lf0 = lf(port \<mapsto> fd)" "fd \<in> open_fds w0"
      by blast
    have "schedule ! (n' - 1) \<in> set schedule" using h(2,3) by simp
    then have "port \<in> set ports" using set_schedule[of 10 ports] h(4) sched by blast
    moreover have "r = Inr port" using np' h(1) by simp
    ultimately show ?thesis using h nn st by blast
  qed
  show ?thesis using n res db st nn length_schedule[of 10 ports] sched by blast
qed

lemma next_port_busy_first:
  "next_port os_busy_first rnd_half [8190, 8191] (Map.empty, world0) =
     (Inr 8191, [8191 \<mapsto> 1],
      \<lparr>clock = 2, draws = 2, open_fds = {1}, next_fd = 2,
       trace = [Sleep (3/10), Open 8190, Close 0, Sleep (3/10), Open 8191,
                Print_acquired 8191]\<rparr>)"
  by (simp add: next_port_def eval_nat_numeral sleep_uniform_eq acquire_lock_cases Let_def
      os_busy_first_def world0_def emit_def delay_def rnd_half_def isinstance_def)

lemma next_port_all_busy:
  "fst (next_port os_all_busy rnd_half [8190] (Map.empty, world0)) = Inl RuntimeError \<and>
   clock (snd (snd (next_port os_all_busy rnd_half [8190] (Map.empty, world0)))) = 10"
  by (simp add: next_port_def eval_nat_numeral sleep_uniform_eq acquire_lock_cases Let_def
      os_all_busy_def world0_def emit_def delay_def rnd_half_def isinstance_def)

theorem next_port_sweeps_witness:
  "next_port os_busy_first rnd_half [8190, 8191] (Map.empty, world0) =
     (Inr 8191, [8191 \<mapsto> 1],
      \<lparr>clock = 2, draws = 2, open_fds = {1}, next_fd = 2,
       trace = [Sleep (3/10), Open 8190, Close 0, Sleep (3/10), Open 8191,
                Print_acquired 8191]\<rparr>) \<and>
   length (concat (replicate 10 [8190, 8191 :: int])) = 20"
proof -
  have ose: "\<forall>k<length (concat (replicate 10 [8190, 8191 :: int])). \<forall>e.
                os_busy_first (clock world0 + k) = OpenRaises e \<or>
                os_busy_first (clock world0 + k) = LockRaises e
                \<longrightarrow> isinstance e [OSError]"
    by (simp add: os_busy_first_def isinstance_def)
  have rnd: "\<forall>i. 0 \<le> rnd_half i \<and> rnd_half i < 1" by (simp add: rnd_half_def)
  have "length (concat (replicate 10 [8190, 8191 :: int])) = 10 * length [8190, 8191 :: int]"
    using next_port_sweeps[OF next_port_busy_first refl ose rnd] by blast
  then show ?thesis using next_port_busy_first by simp
qed

lemma init_example:
  "fst (init os_own_lock rnd_half 2 2 world0) = Inr example_manager"
  by (simp add: init_def next_port_def eval_nat_numeral sleep_uniform_eq acquire_lock_cases
      Let_def os_own_lock_def world0_def emit_def delay_def rnd_half_def isinstance_def
      example_manager_def upt_rec)


section \<open>Rate control\<close>

lemma set_status_simps [simp]:
  "self (set_status i st j) = self j"
  "idx (set_status i st j) = idx j"
  "yielded (set_status i st j) = yielded j"
  "stream (set_status i st j) = stream j"
  "calls (set_status i st j) = calls j"
  "length (tasks (set_status i st j)) = length (tasks j)"
  by (simp_all add: set_status_def)

lemma set_gate_simps [simp]:
  "tasks (set_gate g b j) = tasks j"
  "idx (set_gate g b j) = idx j"
  "yielded (set_gate g b j) = yielded j"
  "stream (set_gate g b j) = stream j"
  "calls (set_gate g b j) = calls j"
  "current_fps (self (set_gate g b j)) = current_fps (self j)"
  "min_fps (self (set_gate g b j)) = min_fps (self j)"
  "max_fps (self (set_gate g b j)) = max_fps (self j)"
  "a2f_clients (self (set_gate g b j)) = a2f_clients (self j)"
  "client_locks (self (set_gate g b j)) = (client_locks (self j))[g := b]"
  by (simp_all add: set_gate_def)

lemma throughput_zero: "throughput s e 0 = Inl ZeroDivisionError"
  by (simp add: throughput_def py_div_def)

lemma throughput_Inr:
  "t \<noteq> 0 \<Longrightarrow> throughput s e t = Inr (fdiv (fsub e s) (Fin t))"
  by (simp add: throughput_def py_div_def)

lemma adjust_fps_zero: "adjust_fps m s e 0 = Inl ZeroDivisionError"
  by (simp add: adjust_fps_def throughput_zero)

lemma adjust_fps_Inr_iff:
  "adjust_fps m s e t = Inr m' \<longleftrightarrow>
     (\<exists>alpha est. throughput s e t = Inr alpha \<and>
        estimate (length (a2f_clients m)) (current_fps m) alpha = Inr est \<and>
        m' = m\<lparr>current_fps :=
                min (max_fps m) ((current_fps m + max (min_fps m) est) div 2)\<rparr>)"
  by (auto simp: adjust_fps_def Let_def split: sum.splits)

lemma adjust_fps_fields:
  assumes "adjust_fps m s e t = Inr m'"
  shows "min_fps m' = min_fps m" "max_fps m' = max_fps m" "a2f_clients m' = a2f_clients m"
    "client_locks m' = client_locks m" "chunk_size m' = chunk_size m"
  using assms by (auto simp: adjust_fps_Inr_iff)

lemma adjust_fps_le_max:
  assumes "adjust_fps m s e t = Inr m'"
  shows "current_fps m' \<le> max_fps m"
  using assms by (auto simp: adjust_fps_Inr_iff)

lemma adjust_fps_ge_min:
  assumes "adjust_fps m s e t = Inr m'" "min_fps m \<le> current_fps m" "min_fps m \<le> max_fps m"
  shows "min_fps m \<le> current_fps m'"
proof -
  obtain est where m': "current_fps m' =
      min (max_fps m) ((current_fps m + max (min_fps m) est) div 2)"
    using assms(1) by (auto simp: adjust_fps_Inr_iff)
  have "min_fps m \<le> max (min_fps m) est" by simp
  then have "min_fps m \<le> (current_fps m + max (min_fps m) est) div 2" using assms(2) by linarith
  then show ?thesis using m' assms(3) by simp
qed

lemma adjust_fps_in_bounds:
  "adjust_fps m s e t = Inr m' \<Longrightarrow> in_bounds m \<Longrightarrow> in_bounds m'"
  using adjust_fps_le_max[of m s e t m'] adjust_fps_ge_min[of m s e t m']
    adjust_fps_fields(1,2)[of m s e t m']
  by (simp add: in_bounds_def)

lemma fire_in_bounds:
  assumes "fire a j = Some j'" "in_bounds (self j)"
  shows "in_bounds (self j')"
proof (cases a)
  case (Return i r t)
  show ?thesis
  proof (cases r)
    case (Inl e)
    then show ?thesis using assms Return
      by (auto simp: in_bounds_def Let_def split: if_splits)
  next
    case (Inr p)
    show ?thesis
    proof (cases "adjust_fps (self j) (t_start (tasks j ! i)) (t_end (tasks j ! i)) t")
      case (Inl e)
      then show ?thesis using assms Return Inr
        by (auto simp: in_bounds_def Let_def split: if_splits)
    next
      case (Inr m')
      have "in_bounds m'" using adjust_fps_in_bounds[OF Inr assms(2)] .
      then show ?thesis using assms Return \<open>r = Inr p\<close> Inr
        by (auto simp: in_bounds_def Let_def split: if_splits)
    qed
  qed
qed (use assms in \<open>auto simp: in_bounds_def Let_def split: if_splits status.splits\<close>)

lemma run_in_bounds:
  "run acts j = Some j' \<Longrightarrow> in_bounds (self j) \<Longrightarrow> in_bounds (self j')"
proof (induction acts arbitrary: j)
  case Nil
  then show ?case by simp
next
  case (Cons a acts)
  then obtain j1 where j1: "fire a j = Some j1" "run acts j1 = Some j'"
    by (auto split: option.splits)
  show ?case using Cons.IH[OF j1(2)] fire_in_bounds[OF j1(1) Cons.prems(2)] by simp
qed

lemma init_fields:
  assumes "init os rnd dw cpw w = (Inr m, w')"
  shows "current_fps m = 30" "default_fps m = 10" "min_fps m = 10" "max_fps m = 30"
    "chunk_size m = round_double (3/10)" "length (client_locks m) = length (a2f_clients m)"
    "\<forall>g < length (client_locks m). \<not> client_locks m ! g"
  using assms by (auto simp: init_def Let_def split: prod.splits sum.splits)

lemma submit_job_self:
  "self (submit_job m loaded fps em a) = m\<lparr>current_fps := resolved_fps m fps\<rparr>"
  by (auto simp: submit_job_def resolved_fps_def Let_def split: sum.splits prod.splits)


section \<open>Gates\<close>

lemma upd_status_nth:
  "k < length ts \<Longrightarrow>
   client_idx ((ts[i := (ts ! i)\<lparr>status := st\<rparr>]) ! k) = client_idx (ts ! k) \<and>
   holds_gate ((ts[i := (ts ! i)\<lparr>status := st\<rparr>]) ! k) =
     (if k = i then st = Scheduled \<or> st = Running else holds_gate (ts ! k))"
  by (cases "k = i") (simp_all add: holds_gate_def)

lemma gates_inv_same:
  assumes "gates_inv ts locks" "i < length ts"
    and "holds_gate (ts ! i) = (st = Scheduled \<or> st = Running)"
  shows "gates_inv (ts[i := (ts ! i)\<lparr>status := st\<rparr>]) locks"
proof -
  define ts' where "ts' = ts[i := (ts ! i)\<lparr>status := st\<rparr>]"
  have len: "length ts' = length ts" by (simp add: ts'_def)
  have h: "\<And>k. k < length ts \<Longrightarrow> holds_gate (ts' ! k) = holds_gate (ts ! k)"
    using upd_status_nth[of _ ts i st] assms(3) by (auto simp: ts'_def)
  have c: "\<And>k. k < length ts \<Longrightarrow> client_idx (ts' ! k) = client_idx (ts ! k)"
    using upd_status_nth[of _ ts i st] by (auto simp: ts'_def)
  have "gates_inv ts' locks"
    using assms(1) h c len unfolding gates_inv_def by auto
  then show ?thesis by (simp add: ts'_def)
qed

lemma gates_inv_acquire:
  assumes inv: "gates_inv ts locks" and i: "i < length ts"
    and nh: "\<not> holds_gate (ts ! i)" and st: "st = Scheduled \<or> st = Running"
    and free: "\<not> locks ! client_idx (ts ! i)"
  shows "gates_inv (ts[i := (ts ! i)\<lparr>status := st\<rparr>]) (locks[client_idx (ts ! i) := True])"
proof -
  define ts' where "ts' = ts[i := (ts ! i)\<lparr>status := st\<rparr>]"
  define g where "g = client_idx (ts ! i)"
  have len: "length ts' = length ts" by (simp add: ts'_def)
  have h: "\<And>k. k < length ts \<Longrightarrow> holds_gate (ts' ! k) = (k = i \<or> holds_gate (ts ! k))"
    using upd_status_nth[of _ ts i st] st by (auto simp: ts'_def)
  have c: "\<And>k. k < length ts \<Longrightarrow> client_idx (ts' ! k) = client_idx (ts ! k)"
    using upd_status_nth[of _ ts i st] by (auto simp: ts'_def)
  have g: "g < length locks" using inv i by (simp add: gates_inv_def g_def)
  have nog: "\<And>k. k < length ts \<Longrightarrow> client_idx (ts ! k) = g \<Longrightarrow> \<not> holds_gate (ts ! k)"
    using inv free g unfolding gates_inv_def g_def by blast
  have 1: "\<forall>k<length ts'. client_idx (ts' ! k) < length (locks[g := True])"
    using inv by (simp add: gates_inv_def len c)
  have 2: "\<forall>g'<length (locks[g := True]).
         (locks[g := True]) ! g' = (\<exists>k<length ts'. client_idx (ts' ! k) = g' \<and> holds_gate (ts' ! k))"
  proof (intro allI impI)
    fix g' assume g': "g' < length (locks[g := True])"
    show "(locks[g := True]) ! g' = (\<exists>k<length ts'. client_idx (ts' ! k) = g' \<and> holds_gate (ts' ! k))"
    proof (cases "g' = g")
      case True
      have "\<exists>k<length ts'. client_idx (ts' ! k) = g \<and> holds_gate (ts' ! k)"
        using i h[OF i] c[OF i] len g_def by auto
      then show ?thesis using True g by simp
    next
      case False
      have "(\<exists>k<length ts'. client_idx (ts' ! k) = g' \<and> holds_gate (ts' ! k)) =
            (\<exists>k<length ts. client_idx (ts ! k) = g' \<and> holds_gate (ts ! k))"
        using False h c len g_def by auto
      then show ?thesis using False g' inv by (simp add: gates_inv_def)
    qed
  qed
  have 3: "\<forall>k<length ts'. \<forall>k'<length ts'.
         holds_gate (ts' ! k) \<and> holds_gate (ts' ! k') \<and> client_idx (ts' ! k) = client_idx (ts' ! k')
         \<longrightarrow> k = k'"
  proof (intro allI impI)
    fix k k' assume k: "k < length ts'" "k' < length ts'"
      and a: "holds_gate (ts' ! k) \<and> holds_gate (ts' ! k') \<and>
              client_idx (ts' ! k) = client_idx (ts' ! k')"
    have kk: "k < length ts" "k' < length ts" using k len by simp_all
    show "k = k'"
    proof (cases "k = i \<or> k' = i")
      case True
      then show ?thesis using a h[OF kk(1)] h[OF kk(2)] c[OF kk(1)] c[OF kk(2)] nog kk g_def
        by metis
    next
      case False
      then show ?thesis using a h[OF kk(1)] h[OF kk(2)] c[OF kk(1)] c[OF kk(2)] inv kk
        unfolding gates_inv_def by metis
    qed
  qed
  show ?thesis using 1 2 3 unfolding gates_inv_def ts'_def g_def by blast
qed

lemma gates_inv_release:
  assumes inv: "gates_inv ts locks" and i: "i < length ts"
    and hg: "holds_gate (ts ! i)" and st: "\<not> (st = Scheduled \<or> st = Running)"
  shows "gates_inv (ts[i := (ts ! i)\<lparr>status := st\<rparr>]) (locks[client_idx (ts ! i) := False])"
proof -
  define ts' where "ts' = ts[i := (ts ! i)\<lparr>status := st\<rparr>]"
  define g where "g = client_idx (ts ! i)"
  have len: "length ts' = length ts" by (simp add: ts'_def)
  have h: "\<And>k. k < length ts \<Longrightarrow> holds_gate (ts' ! k) = (k \<noteq> i \<and> holds_gate (ts ! k))"
    using upd_status_nth[of _ ts i st] st by (auto simp: ts'_def)
  have c: "\<And>k. k < length ts \<Longrightarrow> client_idx (ts' ! k) = client_idx (ts ! k)"
    using upd_status_nth[of _ ts i st] by (auto simp: ts'_def)
  have g: "g < length locks" using inv i by (simp add: gates_inv_def g_def)
  have only: "\<And>k. k < length ts \<Longrightarrow> client_idx (ts ! k) = g \<Longrightarrow> holds_gate (ts ! k) \<Longrightarrow> k = i"
    using inv i hg unfolding gates_inv_def g_def by metis
  have 1: "\<forall>k<length ts'. client_idx (ts' ! k) < length (locks[g := False])"
    using inv by (simp add: gates_inv_def len c)
  have 2: "\<forall>g'<length (locks[g := False]).
         (locks[g := False]) ! g' = (\<exists>k<length ts'. client_idx (ts' ! k) = g' \<and> holds_gate (ts' ! k))"
  proof (intro allI impI)
    fix g' assume g': "g' < length (locks[g := False])"
    show "(locks[g := False]) ! g' = (\<exists>k<length ts'. client_idx (ts' ! k) = g' \<and> holds_gate (ts' ! k))"
    proof (cases "g' = g")
      case True
      have "\<not> (\<exists>k<length ts'. client_idx (ts' ! k) = g \<and> holds_gate (ts' ! k))"
        using h c len only by auto
      then show ?thesis using True g by simp
    next
      case False
      have "(\<exists>k<length ts'. client_idx (ts' ! k) = g' \<and> holds_gate (ts' ! k)) =
            (\<exists>k<length ts. client_idx (ts ! k) = g' \<and> holds_gate (ts ! k))"
        using False h c len g_def by auto
      then show ?thesis using False g' inv by (simp add: gates_inv_def)
    qed
  qed
  have 3: "\<forall>k<length ts'. \<forall>k'<length ts'.
         holds_gate (ts' ! k) \<and> holds_gate (ts' ! k') \<and> client_idx (ts' ! k) = client_idx (ts' ! k')
         \<longrightarrow> k = k'"
    using inv h c len unfolding gates_inv_def by auto
  show ?thesis using 1 2 3 unfolding gates_inv_def ts'_def g_def by blast
qed


lemma tasks_set_status [simp]:
  "tasks (set_status i st j) = (tasks j)[i := (tasks j ! i)\<lparr>status := st\<rparr>]"
  by (simp add: set_status_def)

lemma fire_gates_inv:
  assumes f: "fire a j = Some j'" and inv: "gates_inv (tasks j) (client_locks (self j))"
  shows "gates_inv (tasks j') (client_locks (self j'))"
proof (cases a)
  case (Acquire i)
  have en: "i < length (tasks j)" "status (tasks j ! i) = Created"
    using f Acquire by (auto split: if_splits)
  have g: "client_idx (tasks j ! i) < length (client_locks (self j))"
    using inv en(1) by (simp add: gates_inv_def)
  have free: "\<not> client_locks (self j) ! client_idx (tasks j ! i)"
    and j': "j' = set_gate (client_idx (tasks j ! i)) True (set_status i Scheduled j)"
    using f Acquire en g by (auto simp: Let_def split: if_splits)
  have "\<not> holds_gate (tasks j ! i)" using en(2) by (simp add: holds_gate_def)
  then show ?thesis
    using gates_inv_acquire[OF inv en(1) _ _ free, of Scheduled] by (simp add: j')
next
  case (Call i)
  have en: "i < length (tasks j)" "status (tasks j ! i) = Scheduled"
    using f Call by (auto split: if_splits)
  have "holds_gate (tasks j ! i) = (Running = Scheduled \<or> Running = Running)"
    using en(2) by (simp add: holds_gate_def)
  from gates_inv_same[OF inv en(1) this] show ?thesis
    using f Call en by (auto simp: Let_def)
next
  case (Return i r t)
  have en: "i < length (tasks j)" "status (tasks j ! i) = Running"
    using f Return by (auto split: if_splits)
  have hg: "holds_gate (tasks j ! i)" using en(2) by (simp add: holds_gate_def)
  have rel: "gates_inv ((tasks j)[i := (tasks j ! i)\<lparr>status := st\<rparr>])
               ((client_locks (self j))[client_idx (tasks j ! i) := False])"
    if "\<not> (st = Scheduled \<or> st = Running)" for st
    using gates_inv_release[OF inv en(1) hg that] .
  show ?thesis
  proof (cases r)
    case (Inl e)
    then show ?thesis using f Return en rel[of "Failed e"] by (auto simp: Let_def)
  next
    case (Inr p)
    show ?thesis
    proof (cases "adjust_fps (self j) (t_start (tasks j ! i)) (t_end (tasks j ! i)) t")
      case (Inl e)
      then show ?thesis using f Return en \<open>r = Inr p\<close> rel[of "Failed e"] by (auto simp: Let_def)
    next
      case (Inr m')
      have "client_locks m' = client_locks (self j)" using adjust_fps_fields(4)[OF Inr] .
      then show ?thesis
        using f Return en \<open>r = Inr p\<close> Inr rel[of "Completed p"] by (auto simp: Let_def)
    qed
  qed
next
  case Next
  then show ?thesis using f inv by (auto split: if_splits status.splits)
next
  case Disconnect
  then show ?thesis using f inv by (auto split: if_splits)
next
  case Cancel_await
  have en: "idx j < length (tasks j)" using f Cancel_await by (auto split: if_splits)
  show ?thesis
  proof (cases "holds_gate (tasks j ! idx j)")
    case True
    have "gates_inv ((tasks j)[idx j := (tasks j ! idx j)\<lparr>status := Cancelled\<rparr>])
               ((client_locks (self j))[client_idx (tasks j ! idx j) := False])"
      using gates_inv_release[OF inv en True, of Cancelled] by simp
    then show ?thesis using f Cancel_await en True
      by (auto simp: Let_def holds_gate_def split: if_splits status.splits)
  next
    case False
    then have "holds_gate (tasks j ! idx j) = (Cancelled = Scheduled \<or> Cancelled = Running)"
      by simp
    from gates_inv_same[OF inv en this] show ?thesis using f Cancel_await en False
      by (auto simp: Let_def holds_gate_def split: if_splits status.splits)
  qed
qed

lemma fire_length_tasks: "fire a j = Some j' \<Longrightarrow> length (tasks j') = length (tasks j)"
  by (cases a) (auto simp: Let_def split: if_splits sum.splits status.splits)

lemma length_yielded: "drained j \<Longrightarrow> length (yielded j) = idx j"
proof -
  assume "drained j"
  then have "length (map fst (yielded j)) = length [0..<idx j]" by (simp add: drained_def)
  then show ?thesis by simp
qed

lemma drained_status_update:
  assumes d: "drained j" and i: "i < length (tasks j)"
    and nc: "\<forall>p. status (tasks j ! i) \<noteq> Completed p"
    and j': "tasks j' = (tasks j)[i := (tasks j ! i)\<lparr>status := st\<rparr>]"
      "idx j' = idx j" "yielded j' = yielded j" "stream j' = Exhausted \<longrightarrow> stream j = Exhausted"
  shows "drained j'"
proof -
  have "status (tasks j' ! k) = Completed (snd (yielded j' ! k))" if "k < idx j" for k
  proof -
    have "status (tasks j ! k) = Completed (snd (yielded j ! k))"
      using d that by (simp add: drained_def)
    moreover from this have "k \<noteq> i" using nc by auto
    ultimately show ?thesis using j' by simp
  qed
  then show ?thesis using d j' by (simp add: drained_def)
qed

lemma fire_drained:
  assumes f: "fire a j = Some j'" and d: "drained j"
  shows "drained j'"
proof (cases a)
  case (Acquire i)
  have en: "i < length (tasks j)" "status (tasks j ! i) = Created"
    using f Acquire by (auto split: if_splits)
  obtain st where "tasks j' = (tasks j)[i := (tasks j ! i)\<lparr>status := st\<rparr>]"
    "idx j' = idx j" "yielded j' = yielded j" "stream j' = stream j"
    using f Acquire en by (auto simp: Let_def split: if_splits)
  then show ?thesis using drained_status_update[OF d en(1), of j' st] en(2) by simp
next
  case (Call i)
  have en: "i < length (tasks j)" "status (tasks j ! i) = Scheduled"
    using f Call by (auto split: if_splits)
  have "tasks j' = (tasks j)[i := (tasks j ! i)\<lparr>status := Running\<rparr>]"
    "idx j' = idx j" "yielded j' = yielded j" "stream j' = stream j"
    using f Call en by (auto simp: Let_def)
  then show ?thesis using drained_status_update[OF d en(1), of j' Running] en(2) by simp
next
  case (Return i r t)
  have en: "i < length (tasks j)" "status (tasks j ! i) = Running"
    using f Return by (auto split: if_splits)
  obtain st where "tasks j' = (tasks j)[i := (tasks j ! i)\<lparr>status := st\<rparr>]"
    "idx j' = idx j" "yielded j' = yielded j" "stream j' = stream j"
    using f Return en by (auto simp: Let_def split: sum.splits)
  then show ?thesis using drained_status_update[OF d en(1), of j' st] en(2) by simp
next
  case Next
  have len: "length (yielded j) = idx j" using length_yielded[OF d] .
  show ?thesis
  proof (cases "idx j < length (tasks j)")
    case True
    show ?thesis
    proof (cases "status (tasks j ! idx j)")
      case (Completed p)
      then have j': "j' = j\<lparr>yielded := yielded j @ [(idx j, p)], idx := idx j + 1\<rparr>"
        using f Next True by (auto split: if_splits)
      have "status (tasks j ! k) = Completed (snd ((yielded j @ [(idx j, p)]) ! k))"
        if "k < idx j + 1" for k
      proof (cases "k < idx j")
        case True
        then show ?thesis using d len by (simp add: drained_def nth_append)
      next
        case False
        then have "k = idx j" using that by simp
        then show ?thesis using Completed len by (simp add: nth_append)
      qed
      moreover have "stream j \<noteq> Exhausted" using f Next by (auto split: if_splits)
      ultimately show ?thesis using d True by (simp add: drained_def j')
    qed (use f Next True d in \<open>auto simp: drained_def split: if_splits\<close>)
  next
    case False
    then show ?thesis using f Next d by (auto simp: drained_def split: if_splits)
  qed
next
  case Disconnect
  then show ?thesis using f d by (auto simp: drained_def split: if_splits)
next
  case Cancel_await
  have en: "idx j < length (tasks j)" using f Cancel_await by (auto split: if_splits)
  have nc: "\<forall>p. status (tasks j ! idx j) \<noteq> Completed p"
    using f Cancel_await en by (auto simp: Let_def split: if_splits status.splits)
  have "tasks j' = (tasks j)[idx j := (tasks j ! idx j)\<lparr>status := Cancelled\<rparr>]"
    "idx j' = idx j" "yielded j' = yielded j" "stream j' = Closed"
    using f Cancel_await en by (auto simp: Let_def split: if_splits status.splits)
  then show ?thesis using drained_status_update[OF d en nc, of j' Cancelled] by simp
qed

lemma run_drained:
  "run acts j = Some j' \<Longrightarrow> drained j \<Longrightarrow> drained j' \<and> length (tasks j') = length (tasks j)"
proof (induction acts arbitrary: j)
  case Nil
  then show ?case by simp
next
  case (Cons a acts)
  then obtain j1 where j1: "fire a j = Some j1" "run acts j1 = Some j'"
    by (auto split: option.splits)
  show ?case
    using Cons.IH[OF j1(2) fire_drained[OF j1(1) Cons.prems(2)]] fire_length_tasks[OF j1(1)]
    by simp
qed

lemma run_gates_inv:
  "run acts j = Some j' \<Longrightarrow> gates_inv (tasks j) (client_locks (self j)) \<Longrightarrow>
   gates_inv (tasks j') (client_locks (self j'))"
proof (induction acts arbitrary: j)
  case Nil
  then show ?case by simp
next
  case (Cons a acts)
  then obtain j1 where j1: "fire a j = Some j1" "run acts j1 = Some j'"
    by (auto split: option.splits)
  show ?case using Cons.IH[OF j1(2) fire_gates_inv[OF j1(1) Cons.prems(2)]] .
qed

lemma create_tasks_nth:
  "i < length cs \<Longrightarrow>
   create_tasks n use_a2e cs ! i =
     \<lparr>client_idx = i mod n, t_start = fst (cs ! i), t_end = snd (cs ! i), a2e = use_a2e,
      status = Created\<rparr>"
  by (simp add: create_tasks_def nth_enumerate_eq)

lemma length_create_tasks [simp]: "length (create_tasks n use_a2e cs) = length cs"
  by (simp add: create_tasks_def)

lemma create_tasks_Nil [simp]: "create_tasks n use_a2e [] = []"
  by (simp add: create_tasks_def)


subsection \<open>Evaluating a rounding\<close>

lemma round_half_even_eqI:
  assumes "\<bar>x - of_int k\<bar> < 1/2"
  shows "round_half_even x = k"
proof -
  have "\<bar>of_int (round_half_even x) - x\<bar> \<le> 1/2" by (rule round_half_even_error)
  then have "\<bar>(of_int (round_half_even x) :: rat) - of_int k\<bar> < 1" using assms by linarith
  then have "\<bar>(of_int (round_half_even x - k) :: rat)\<bar> < of_int 1" by simp
  then have "\<bar>round_half_even x - k\<bar> < 1" by (simp only: of_int_abs[symmetric] of_int_less_iff)
  then show ?thesis by simp
qed

lemma round_double_eqI:
  assumes e: "2 powi e \<le> \<bar>x\<bar>" "\<bar>x\<bar> < 2 powi (e + 1)" "- 1022 \<le> e" "e < 1024"
    and k: "\<bar>x - of_int k * 2 powi (e - 52)\<bar> < 2 powi (e - 52) / 2"
  shows "round_double x = of_int k * 2 powi (e - 52)"
proof -
  have b: "binade x = e" using e by (intro binade_unique) simp_all
  have "max (e - 52) (- 1074) = e - 52" using e(3) by linarith
  then have u: "ulp x = 2 powi (e - 52)" by (simp only: ulp_def b)
  have "x / ulp x - of_int k = (x - of_int k * ulp x) / ulp x"
    by (simp add: diff_divide_distrib)
  then have "\<bar>x / ulp x - of_int k\<bar> = \<bar>x - of_int k * ulp x\<bar> / ulp x"
    by (simp only: abs_divide abs_ulp)
  also have "\<dots> < (ulp x / 2) / ulp x"
    using k unfolding u by (intro divide_strict_right_mono) simp_all
  finally have "\<bar>x / ulp x - of_int k\<bar> < 1/2" by simp
  then have "round_half_even (x / ulp x) = k" by (rule round_half_even_eqI)
  then show ?thesis by (simp add: round_double_def u)
qed

lemma round_double_num:
  assumes "y = of_int k * 2 powi (e - 52)"
    "2 powi e \<le> \<bar>x\<bar>" "\<bar>x\<bar> < 2 powi (e + 1)" "- 1022 \<le> e" "e < 1024"
    "\<bar>x - y\<bar> < 2 powi (e - 52) / 2"
  shows "round_double x = y"
  using round_double_eqI[of e x k] assms by simp

lemma round_double_numeral:
  "numeral w < (2::int) ^ 53 \<Longrightarrow> round_double (numeral w) = numeral w"
  using round_double_of_int[of "numeral w"] by simp

lemma round_double_1 [simp]: "round_double 1 = 1"
  using round_double_of_int[of 1] by simp

lemma fround_small: "\<bar>x\<bar> \<le> 2 ^ 64 \<Longrightarrow> fround x = Fin (round_double x)"
  using fround_Fin[of x "2 ^ 64"] round_double_pow2[of 64] by simp

lemma round_double_error_small:
  assumes "\<bar>x\<bar> < 2 ^ 35"
  shows "\<bar>round_double x - x\<bar> \<le> 1 / 2 ^ 19"
proof -
  have "\<bar>x\<bar> < 2 powi 35" using assms by simp
  then have "ulp x \<le> 2 powi (35 - 53)" by (rule ulp_le) simp
  then have "ulp x \<le> 1 / 2 ^ 18" by (simp add: power_int_minus field_simps)
  moreover have "\<bar>round_double x - x\<bar> \<le> ulp x / 2" by (rule round_double_error)
  ultimately show ?thesis by simp
qed

lemma is_double_0 [simp]: "is_double 0"
  by (simp add: is_double_def)

lemma is_double_of_int: "\<bar>m\<bar> < 2 ^ 53 \<Longrightarrow> is_double (of_int m)"
proof -
  assume a: "\<bar>m\<bar> < 2 ^ 53"
  have "\<bar>of_int m :: rat\<bar> < 2 ^ 53"
    using a by (metis of_int_abs of_int_less_numeral_power_cancel_iff)
  then have "\<bar>of_int m :: rat\<bar> < 2 ^ 1024" by (rule less_le_trans) simp
  then show ?thesis using round_double_of_int[OF a] by (simp add: is_double_def)
qed

lemma is_double_grid:
  assumes "x = of_int m * 2 powi j" "\<bar>m\<bar> < 2 ^ 53" "- 1074 \<le> j" "\<bar>x\<bar> < 2 ^ 1024"
  shows "is_double x"
  using round_double_grid[OF assms(1,2,3)] assms(4) by (simp add: is_double_def)

lemma c03: "round_double (3/10) = 5404319552844595 / 18014398509481984"
  by (rule round_double_num[where e = "- 2" and k = 5404319552844595]) simp_all


section \<open>Slices\<close>

lemma collect_map_Inr:
  "(\<And>x. x \<in> set xs \<Longrightarrow> f x = Inr (g x)) \<Longrightarrow> collect (map f xs) = Inr (map g xs)"
  by (induction xs) simp_all

lemma chunks_nonpos: "n \<le> 0 \<Longrightarrow> chunks d cs n = Inr []"
  by (simp add: chunks_def)

lemma round_double_half [simp]: "round_double (1/2) = 1/2"
  using round_double_p2[of "- 1"] by simp

lemma nr_splits_Fin:
  assumes "cs \<noteq> 0" "\<bar>d / cs\<bar> \<le> 2 ^ 1023"
  shows "nr_splits d cs = Inr \<lceil>round_double (round_double (d / cs) - 1/2)\<rceil>"
proof -
  define y where "y = round_double (d / cs)"
  have g: "round_double (2 ^ 1023) = 2 ^ 1023" by (rule round_double_pow2)
  have 1: "fround (d / cs) = Fin y"
    unfolding y_def using assms(2) g by (rule fround_Fin) simp
  have y: "\<bar>y\<bar> \<le> 2 ^ 1023" unfolding y_def using assms(2) g by (rule round_double_abs_le)
  have g2: "round_double (3 * 2 ^ 1022) = 3 * 2 ^ 1022"
    using round_double_grid[of "3 * 2 ^ 1022" 3 1022] by simp
  have "\<bar>y - 1/2\<bar> \<le> 3 * 2 ^ 1022" using y by (simp add: abs_le_iff)
  then have 2: "fround (y - 1/2) = Fin (round_double (y - 1/2))"
    using g2 by (rule fround_Fin) simp
  show ?thesis using assms(1) 1 2 by (simp add: nr_splits_def py_div_def fsub_def y_def)
qed

lemma nr_splits_le_half:
  assumes "0 < cs" "d \<le> cs / 2" "nr_splits d cs = Inr k"
  shows "k \<le> 0"
proof -
  define y where "y = round_double (d / cs)"
  have x: "d / cs \<le> 1/2" using assms(1,2) by (simp add: field_simps)
  have y: "y \<le> 1/2" unfolding y_def using round_double_mono[OF x] by simp
  have cs: "Fin cs \<noteq> Fin 0" using assms(1) by simp
  have 1: "fround (d / cs) = Fin y"
    using fround_cases[of "d / cs"] assms(3) cs
    by (auto simp: nr_splits_def py_div_def fsub_def y_def)
  then have 2: "fround (y - 1/2) = Fin (round_double (y - 1/2))"
    using fround_cases[of "y - 1/2"] assms(3) cs
    by (auto simp: nr_splits_def py_div_def fsub_def)
  have k: "k = \<lceil>round_double (y - 1/2)\<rceil>"
    using assms(3) cs 1 2 by (simp add: nr_splits_def py_div_def fsub_def)
  have "round_double (y - 1/2) \<le> round_double 0" using y by (intro round_double_mono) simp
  then have "round_double (y - 1/2) \<le> 0" by simp
  then show ?thesis unfolding k by (simp add: ceiling_le_iff)
qed

lemma nr_splits_zero:
  assumes "0 < cs" "0 \<le> d" "d \<le> cs / 2"
  shows "nr_splits d cs = Inr 0"
proof -
  define y where "y = round_double (d / cs)"
  have x: "0 \<le> d / cs" "d / cs \<le> 1/2" using assms by (simp_all add: field_simps)
  then have "\<bar>d / cs\<bar> \<le> 1/2" by (simp only: abs_of_nonneg)
  then have "\<bar>d / cs\<bar> \<le> 2 ^ 1023" by (rule order_trans) simp
  then have n: "nr_splits d cs = Inr \<lceil>round_double (y - 1/2)\<rceil>"
    using nr_splits_Fin[of cs d] assms(1) by (simp add: y_def)
  have y: "0 \<le> y" "y \<le> 1/2"
    unfolding y_def using round_double_nonneg[OF x(1)] round_double_mono[OF x(2)] by simp_all
  have "round_double (- (1/2)) \<le> round_double (y - 1/2)" using y by (intro round_double_mono) simp
  then have lo: "- (1/2) \<le> round_double (y - 1/2)" by (simp add: round_double_minus)
  have "round_double (y - 1/2) \<le> round_double 0" using y by (intro round_double_mono) simp
  then have hi: "round_double (y - 1/2) \<le> 0" by simp
  have "\<lceil>round_double (y - 1/2)\<rceil> = 0" using lo hi by (simp add: ceiling_eq_iff)
  then show ?thesis using n by simp
qed

lemma nr_splits_bracket:
  assumes cs: "0 < cs" and d: "0 \<le> d" and q: "d / cs \<le> 2 ^ 34" and n: "nr_splits d cs = Inr n"
  shows "0 \<le> n" "n \<le> 2 ^ 34" "of_int n - 1/2 < d / cs" "d / cs < of_int n + 1/2 + 1 / 2 ^ 16"
proof -
  define x where "x = d / cs"
  define y where "y = round_double x"
  define z where "z = round_double (y - 1/2)"
  have x0: "0 \<le> x" using cs d by (simp add: x_def)
  have "\<bar>x\<bar> \<le> 2 ^ 34" using x0 q by (simp add: x_def)
  then have "\<bar>d / cs\<bar> \<le> 2 ^ 1023" unfolding x_def by (rule order_trans) simp
  then have nz: "n = \<lceil>z\<rceil>"
    using nr_splits_Fin[of cs d] cs n by (simp add: x_def y_def z_def)
  have y0: "0 \<le> y" unfolding y_def using x0 by (rule round_double_nonneg)
  have "round_double x \<le> round_double (2 ^ 34)" using q unfolding x_def by (rule round_double_mono)
  then have y1: "y \<le> 2 ^ 34" by (simp only: y_def round_double_pow2)
  have "round_double (- (1/2)) \<le> round_double (y - 1/2)" using y0 by (intro round_double_mono) simp
  then have z0: "- (1/2) \<le> z" by (simp add: round_double_minus z_def)
  have "round_double (y - 1/2) \<le> round_double (2 ^ 34)" using y1 by (intro round_double_mono) simp
  then have z1: "z \<le> 2 ^ 34" by (simp only: z_def round_double_pow2)
  show n0: "0 \<le> n" unfolding nz using z0 by (simp add: le_ceiling_iff)
  have "z \<le> of_int (2 ^ 34)" using z1 by simp
  then show n1: "n \<le> 2 ^ 34" unfolding nz by (simp only: ceiling_le_iff)
  show "of_int n - 1/2 < d / cs"
  proof (rule ccontr)
    assume "\<not> of_int n - 1/2 < d / cs"
    then have le: "x \<le> of_int n - 1/2" by (simp add: x_def)
    have g: "round_double (of_int n - 1/2) = of_int n - 1/2"
    proof (rule round_double_grid[where m = "2 * n - 1" and j = "- 1"])
      show "of_int n - 1/2 = (of_int (2 * n - 1) :: rat) * 2 powi (- 1)"
        by (simp add: power_int_minus field_simps)
      show "\<bar>2 * n - 1\<bar> < 2 ^ 53" using n0 n1 by simp
    qed simp
    have "y \<le> of_int n - 1/2" using round_double_mono[OF le] g by (simp add: y_def)
    then have "y - 1/2 \<le> of_int (n - 1)" by simp
    then have "z \<le> round_double (of_int (n - 1))" unfolding z_def by (rule round_double_mono)
    moreover have "\<bar>n - 1\<bar> < 2 ^ 53" using n0 n1 by simp
    ultimately have "z \<le> of_int (n - 1)" by (simp only: round_double_of_int)
    then have "\<lceil>z\<rceil> \<le> n - 1" by (simp only: ceiling_le_iff)
    then show False using nz by simp
  qed
  show "d / cs < of_int n + 1/2 + 1 / 2 ^ 16"
  proof (rule ccontr)
    assume "\<not> d / cs < of_int n + 1/2 + 1 / 2 ^ 16"
    then have ge: "of_int n + 1/2 + 1 / 2 ^ 16 \<le> x" by (simp add: x_def)
    have g: "round_double (of_int n + 1/2 + 1 / 2 ^ 16) = of_int n + 1/2 + 1 / 2 ^ 16"
    proof (rule round_double_grid[where m = "n * 2 ^ 16 + 2 ^ 15 + 1" and j = "- 16"])
      show "of_int n + 1/2 + 1 / 2 ^ 16 = (of_int (n * 2 ^ 16 + 2 ^ 15 + 1) :: rat) * 2 powi (- 16)"
        by (simp add: power_int_minus field_simps)
      show "\<bar>n * 2 ^ 16 + 2 ^ 15 + 1\<bar> < 2 ^ 53" using n0 n1 by simp
    qed simp
    have y: "of_int n + 1/2 + 1 / 2 ^ 16 \<le> y" using round_double_mono[OF ge] g by (simp add: y_def)
    have g': "round_double (of_int n + 1 / 2 ^ 16) = of_int n + 1 / 2 ^ 16"
    proof (rule round_double_grid[where m = "n * 2 ^ 16 + 1" and j = "- 16"])
      show "of_int n + 1 / 2 ^ 16 = (of_int (n * 2 ^ 16 + 1) :: rat) * 2 powi (- 16)"
        by (simp add: power_int_minus field_simps)
      show "\<bar>n * 2 ^ 16 + 1\<bar> < 2 ^ 53" using n0 n1 by simp
    qed simp
    have "of_int n + 1 / 2 ^ 16 \<le> y - 1/2" using y by simp
    then have "round_double (of_int n + 1 / 2 ^ 16) \<le> z" unfolding z_def by (rule round_double_mono)
    then have "of_int n + 1 / 2 ^ 16 \<le> z" by (simp only: g')
    then have "of_int n < z" by simp
    then have "n < \<lceil>z\<rceil>" by (simp only: less_ceiling_iff)
    then show False using nz by simp
  qed
qed


lemma fmin_Fin [simp]: "fmin (Fin a) (Fin b) = Fin (min a b)"
  by (simp add: fmin_def min_def)

lemma chunk_Fin:
  assumes "0 \<le> cs" "cs \<le> 1" "i < 2 ^ 34"
  shows "chunk d cs i =
           Inr (Fin (round_double (of_nat i * cs)),
                Fin (min (round_double ((of_nat i + 1) * cs)) d))"
proof -
  have i: "int i < 2 ^ 34" using assms(3) of_nat_less_iff[of i "2 ^ 34", where ?'a = int] by simp
  then have "\<bar>int i\<bar> < 2 ^ 53" "\<bar>int i + 1\<bar> < 2 ^ 53" by simp_all
  then have a: "float_of_int (int i) = Inr (Fin (of_nat i))"
    and b: "float_of_int (int i + 1) = Inr (Fin (of_nat i + 1))"
    using float_of_int_exact[of "int i"] float_of_int_exact[of "int i + 1"] by simp_all
  have "(of_int (int i + 1) :: rat) \<le> of_int (2 ^ 34)" using i by (simp only: of_int_le_iff)
  then have ir: "(of_nat i + 1 :: rat) \<le> 2 ^ 34" by simp
  have g: "round_double (2 ^ 34) = 2 ^ 34" by (rule round_double_pow2)
  have "(of_nat i + 1) * cs \<le> 2 ^ 34 * 1" using ir assms(1,2) by (intro mult_mono) simp_all
  moreover have "of_nat i * cs \<le> (of_nat i + 1) * cs" using assms(1) by (simp add: algebra_simps)
  moreover have "0 \<le> of_nat i * cs" using assms(1) by simp
  ultimately have "\<bar>of_nat i * cs\<bar> \<le> 2 ^ 34" "\<bar>(of_nat i + 1) * cs\<bar> \<le> 2 ^ 34" by simp_all
  then have "fround (of_nat i * cs) = Fin (round_double (of_nat i * cs))"
    "fround ((of_nat i + 1) * cs) = Fin (round_double ((of_nat i + 1) * cs))"
    using g by (simp_all add: fround_Fin[where g = "2 ^ 34"])
  then show ?thesis by (simp add: chunk_def a b)
qed

lemma chunks_Fin:
  assumes "0 \<le> cs" "cs \<le> 1" "n \<le> 2 ^ 34"
  shows "chunks d cs n =
           Inr (map (\<lambda>i. (Fin (round_double (of_nat i * cs)),
                          Fin (min (round_double ((of_nat i + 1) * cs)) d))) [0..<nat n])"
  unfolding chunks_def
proof (rule collect_map_Inr)
  fix i assume "i \<in> set [0..<nat n]"
  then have "int i < n" by auto
  then have "int i < 2 ^ 34" using assms(3) by simp
  then have "i < 2 ^ 34" using of_nat_less_iff[of i "2 ^ 34", where ?'a = int] by simp
  then show "chunk d cs i =
      Inr (Fin (round_double (of_nat i * cs)), Fin (min (round_double ((of_nat i + 1) * cs)) d))"
    using assms(1,2) by (intro chunk_Fin)
qed

lemma slices_create_tasks: "map (\<lambda>t. (t_start t, t_end t)) (create_tasks n use_a2e cs) = cs"
proof -
  have "map (\<lambda>t. (t_start t, t_end t)) (create_tasks n use_a2e cs)
          = map (\<lambda>p. snd p) (enumerate 0 cs)"
    unfolding create_tasks_def map_map by (rule map_cong) (auto simp: split_def)
  then show ?thesis by (simp add: map_snd_enumerate)
qed

lemma submit_job_slices:
  assumes "nr_splits d (chunk_size mgr) = Inr k" "chunks d (chunk_size mgr) k = Inr c"
    and "a2f_clients mgr \<noteq> []"
  shows "slices (submit_job mgr (Inr (path, d)) fps em use_a2e) = c"
    "stream (submit_job mgr (Inr (path, d)) fps em use_a2e) = Streaming"
  using assms by (simp_all add: submit_job_def slices_def Let_def slices_create_tasks)

lemma example_manager_simps:
  "chunk_size example_manager = round_double (3/10)"
  "a2f_clients example_manager = [8190, 8191]"
  "client_locks example_manager = [False, False]" "current_fps example_manager = 30"
  "default_fps example_manager = 10" "max_fps example_manager = 30"
  "min_fps example_manager = 10"
  by (simp_all add: example_manager_def)

lemma slices_properties:
  assumes dd: "is_double d" and d0: "0 < d" and d1: "d \<le> 2 ^ 32"
    and cs: "1/4 \<le> cs" "cs \<le> 1/2"
    and n: "nr_splits d cs = Inr n"
  shows "0 \<le> n" "n \<le> 2 ^ 34"
    "of_int n - 1/2 < d / cs" "d / cs < of_int n + 1/2 + 1 / 2 ^ 16"
    "chunks d cs n =
       Inr (map (\<lambda>i. (Fin (round_double (of_nat i * cs)),
                      Fin (min (round_double ((of_nat i + 1) * cs)) d))) [0..<nat n])"
    "\<And>i. int i < n \<Longrightarrow> round_double (of_nat i * cs) < min (round_double ((of_nat i + 1) * cs)) d"
    "\<And>i. int i + 1 < n \<Longrightarrow> min (round_double ((of_nat i + 1) * cs)) d = round_double ((of_nat i + 1) * cs)"
    "0 < n \<Longrightarrow> d - min (round_double (of_int n * cs)) d < cs / 2 + 1 / 2 ^ 16"
proof -
  have cs0: "0 < cs" using cs(1) by simp
  have "d / cs \<le> d / (1/4)" using cs(1) d0 by (intro divide_left_mono) simp_all
  then have q: "d / cs \<le> 2 ^ 34" using d1 by simp
  have d0': "0 \<le> d" using d0 by simp
  show n0: "0 \<le> n" and n1: "n \<le> 2 ^ 34"
    and lo: "of_int n - 1/2 < d / cs" and hi: "d / cs < of_int n + 1/2 + 1 / 2 ^ 16"
    using nr_splits_bracket[OF cs0 d0' q n] by simp_all
  show "chunks d cs n =
       Inr (map (\<lambda>i. (Fin (round_double (of_nat i * cs)),
                      Fin (min (round_double ((of_nat i + 1) * cs)) d))) [0..<nat n])"
    using cs0 cs(2) n1 by (intro chunks_Fin) simp_all
  have lo': "(of_int n - 1/2) * cs < d" using lo cs0 by (simp add: field_simps)
  have hi': "d < (of_int n + 1/2 + 1 / 2 ^ 16) * cs" using hi cs0 by (simp add: field_simps)
  have rd: "round_double d = d" using dd by (simp add: is_double_def)
  have err: "\<bar>round_double (of_nat i * cs) - of_nat i * cs\<bar> \<le> 1 / 2 ^ 19" if "int i \<le> n + 1" for i
  proof -
    have "(of_int (int i) :: rat) \<le> of_int (n + 1)" using that by (simp only: of_int_le_iff)
    moreover have "(of_int (n + 1) :: rat) \<le> of_int (2 ^ 34 + 1)" using n1 by (simp only: of_int_le_iff)
    ultimately have "(of_nat i :: rat) \<le> 2 ^ 34 + 1" by simp
    then have "of_nat i * cs \<le> (2 ^ 34 + 1) * (1/2)" using cs(2) cs0 by (intro mult_mono) simp_all
    moreover have "0 \<le> of_nat i * cs" using cs0 by simp
    ultimately have "\<bar>of_nat i * cs\<bar> < 2 ^ 35" by simp
    then show ?thesis by (rule round_double_error_small)
  qed
  have mid: "(of_nat i + 1/2) * cs < d" if "int i < n" for i
  proof -
    have "(of_int (int i + 1) :: rat) \<le> of_int n" using that by (simp only: of_int_le_iff)
    then have "(of_nat i + 1/2 :: rat) \<le> of_int n - 1/2" by simp
    then have "(of_nat i + 1/2) * cs \<le> (of_int n - 1/2) * cs" using cs0 by (simp add: mult_right_mono)
    then show ?thesis using lo' by simp
  qed
  show "round_double (of_nat i * cs) < min (round_double ((of_nat i + 1) * cs)) d" if "int i < n" for i
  proof -
    have e1: "\<bar>round_double (of_nat i * cs) - of_nat i * cs\<bar> \<le> 1 / 2 ^ 19" using that by (intro err) simp
    have "\<bar>round_double (of_nat (Suc i) * cs) - of_nat (Suc i) * cs\<bar> \<le> 1 / 2 ^ 19" using that by (intro err) simp
    then have e2: "\<bar>round_double ((of_nat i + 1) * cs) - (of_nat i + 1) * cs\<bar> \<le> 1 / 2 ^ 19"
      by (simp add: add.commute)
    have p: "(of_nat i + 1) * cs = of_nat i * cs + cs" "(of_nat i + 1/2) * cs = of_nat i * cs + cs / 2"
      by (simp_all add: algebra_simps)
    have k: "(1::rat) / 2 ^ 19 = 1 / 524288" by simp
    have "round_double (of_nat i * cs) < round_double ((of_nat i + 1) * cs)"
      using e1 e2 cs(1) unfolding p k by linarith
    moreover have "round_double (of_nat i * cs) < d"
      using e1 mid[OF that] cs(1) unfolding p k by linarith
    ultimately show ?thesis by simp
  qed
  show "min (round_double ((of_nat i + 1) * cs)) d = round_double ((of_nat i + 1) * cs)"
    if "int i + 1 < n" for i
  proof -
    have "int (Suc i) < n" using that by simp
    then have "(of_nat (Suc i) + 1/2) * cs < d" by (rule mid)
    then have "(of_nat i + 1) * cs \<le> d" using cs0 by (simp add: algebra_simps)
    then have "round_double ((of_nat i + 1) * cs) \<le> round_double d" by (rule round_double_mono)
    then show ?thesis by (simp add: rd)
  qed
  show "d - min (round_double (of_int n * cs)) d < cs / 2 + 1 / 2 ^ 16" if "0 < n"
  proof -
    have "\<bar>round_double (of_nat (nat n) * cs) - of_nat (nat n) * cs\<bar> \<le> 1 / 2 ^ 19"
      using n0 by (intro err) simp
    then have e: "\<bar>round_double (of_int n * cs) - of_int n * cs\<bar> \<le> 1 / 2 ^ 19" using n0 by simp
    have "(of_int n + 1/2 + 1 / 2 ^ 16) * cs = of_int n * cs + cs / 2 + cs / 2 ^ 16"
      by (simp add: algebra_simps)
    moreover have "cs / 2 ^ 16 \<le> (1/2) / 2 ^ 16" using cs(2) by (intro divide_right_mono) simp_all
    moreover have "(1/2) / 2 ^ 16 = (1 / 131072 :: rat)" "(1::rat) / 2 ^ 16 = 1 / 65536"
      "(1::rat) / 2 ^ 19 = 1 / 524288" by simp_all
    ultimately have "d - round_double (of_int n * cs) < cs / 2 + 1 / 2 ^ 16"
      using e hi' by linarith
    moreover have "0 < cs / 2 + 1 / 2 ^ 16" using cs0 by simp
    ultimately show ?thesis by (simp add: min_def)
  qed
qed


lemma round_half_even_tie:
  assumes "\<bar>x - of_int k\<bar> = 1/2" "even k"
  shows "round_half_even x = k"
proof (cases "x = of_int k + 1/2")
  case True
  have "\<lfloor>x\<rfloor> = k" unfolding True by (simp add: floor_unique)
  then show ?thesis using assms(2) by (simp add: round_half_even_def Let_def True)
next
  case False
  then have x: "x = of_int (k - 1) + 1/2" using assms(1) by (simp add: abs_if split: if_splits)
  have "\<lfloor>x\<rfloor> = k - 1" unfolding x by (rule floor_unique) simp_all
  moreover have "odd (k - 1)" using assms(2) by simp
  ultimately show ?thesis by (simp add: round_half_even_def Let_def x)
qed

lemma round_double_tie:
  assumes "y = of_int k * 2 powi (e - 52)"
    "2 powi e \<le> \<bar>x\<bar>" "\<bar>x\<bar> < 2 powi (e + 1)" "- 1022 \<le> e" "e < 1024"
    "\<bar>x - y\<bar> = 2 powi (e - 52) / 2" "even k"
  shows "round_double x = y"
proof -
  have b: "binade x = e" using assms(2-5) by (intro binade_unique) simp_all
  have "max (e - 52) (- 1074) = e - 52" using assms(4) by linarith
  then have u: "ulp x = 2 powi (e - 52)" by (simp only: ulp_def b)
  have "x / ulp x - of_int k = (x - of_int k * ulp x) / ulp x"
    by (simp add: diff_divide_distrib)
  then have "\<bar>x / ulp x - of_int k\<bar> = \<bar>x - of_int k * ulp x\<bar> / ulp x"
    by (simp only: abs_divide abs_ulp)
  also have "\<dots> = (ulp x / 2) / ulp x" using assms(6) unfolding u assms(1) by simp
  finally have "\<bar>x / ulp x - of_int k\<bar> = 1/2" by simp
  then have "round_half_even (x / ulp x) = k" using assms(7) by (rule round_half_even_tie)
  then show ?thesis by (simp add: round_double_def u assms(1))
qed


subsection \<open>Examples\<close>

text \<open>
  The roundings that the examples need. The double nearest to 0.3 is
  \<open>5404319552844595 / 2 ^ 54\<close>, a little below 0.3; twice and four times this value are the
  doubles nearest to 0.6 and to 1.2; three times this value lies halfway between two
  doubles and is rounded to \<open>2026619832316723 / 2 ^ 51\<close>, the double
  \<^verbatim>\<open>0.8999999999999999\<close> below 0.9. The doubles nearest to 1.05 and to 0.45 are
  \<open>4728779608739021 / 2 ^ 52\<close> and \<open>8106479329266893 / 2 ^ 54\<close>.
\<close>

lemma rd_cs: "round_double (5404319552844595 / 18014398509481984) = 5404319552844595 / 18014398509481984"
  by (rule round_double_num[where e = "- 2" and k = 5404319552844595]) simp_all

lemma rd_2cs: "round_double (5404319552844595 / 9007199254740992) = 5404319552844595 / 9007199254740992"
  by (rule round_double_num[where e = "- 1" and k = 5404319552844595]) simp_all

lemma rd_3cs: "round_double (16212958658533785 / 18014398509481984) = 2026619832316723 / 2251799813685248"
  by (rule round_double_tie[where e = "- 1" and k = 8106479329266892]) simp_all

lemma rd_4cs: "round_double (5404319552844595 / 4503599627370496) = 5404319552844595 / 4503599627370496"
  by (rule round_double_num[where e = 0 and k = 5404319552844595]) simp_all

lemma rd_1_div_cs: "round_double (18014398509481984 / 5404319552844595) = 7505999378950827 / 2251799813685248"
  by (rule round_double_num[where e = 1 and k = 7505999378950827]) simp_all

lemma rd_1_sub: "round_double (6380099472108203 / 2251799813685248) = 6380099472108203 / 2251799813685248"
  by (rule round_double_num[where e = 1 and k = 6380099472108203]) simp_all

lemma rd_105_div_cs: "round_double (18915118434956084 / 5404319552844595) = 7881299347898369 / 2251799813685248"
  by (rule round_double_num[where e = 1 and k = 7881299347898369]) simp_all

lemma rd_105_sub: "round_double (6755399441055745 / 2251799813685248) = 6755399441055745 / 2251799813685248"
  by (rule round_double_num[where e = 1 and k = 6755399441055745]) simp_all

lemma rd_105: "round_double (4728779608739021 / 4503599627370496) = 4728779608739021 / 4503599627370496"
  by (rule round_double_num[where e = 0 and k = 4728779608739021]) simp_all

lemma rd_045_div_cs: "round_double (8106479329266893 / 5404319552844595) = 3 / 2"
  by (rule round_double_num[where e = 0 and k = 6755399441055744]) simp_all


lemma rd_045: "round_double (8106479329266893 / 18014398509481984) = 8106479329266893 / 18014398509481984"
  by (rule round_double_num[where e = "- 2" and k = 8106479329266893]) simp_all

lemma cs_bounds: "1/4 \<le> round_double (3/10)" "round_double (3/10) \<le> 1/2" "0 < round_double (3/10)"
  "round_double (3/10) \<noteq> 0"
  by (simp_all add: c03)

lemma is_double_1 [simp]: "is_double 1"
  using is_double_of_int[of 1] by simp

lemma nr_splits_1: "nr_splits 1 (round_double (3/10)) = Inr 3"
  using nr_splits_Fin[of "round_double (3/10)" 1]
  by (simp add: c03 rd_1_div_cs rd_1_sub ceiling_eq_iff)

lemma chunks_1:
  "chunks 1 (round_double (3/10)) 3 =
     Inr [(Fin 0, Fin (5404319552844595 / 18014398509481984)), (Fin (5404319552844595 / 18014398509481984), Fin (5404319552844595 / 9007199254740992)), (Fin (5404319552844595 / 9007199254740992), Fin (2026619832316723 / 2251799813685248))]"
  using chunks_Fin[of "round_double (3/10)" 3 1]
  by (simp add: c03 upt_rec rd_cs rd_2cs rd_3cs)

lemma slices_example:
  "slices (submit_job example_manager (Inr (''sample-0.wav'', 1)) None None False) =
     [(Fin 0, Fin (5404319552844595 / 18014398509481984)), (Fin (5404319552844595 / 18014398509481984), Fin (5404319552844595 / 9007199254740992)), (Fin (5404319552844595 / 9007199254740992), Fin (2026619832316723 / 2251799813685248))]"
  using submit_job_slices(1)[of 1 example_manager 3 _ "''sample-0.wav''" None None False]
  by (simp add: example_manager_simps nr_splits_1 chunks_1)

text \<open>
  Durations at a half-chunk boundary. The double nearest to 1.05 gives four slices, the
  last one ending at the duration; the double nearest to 0.45 gives one slice, and the
  tail that no slice covers is a little longer than half a chunk width.
\<close>

lemma slices_example_105:
  "slices (submit_job example_manager (Inr (''sample-0.wav'', 4728779608739021 / 4503599627370496)) None None False) =
     [(Fin 0, Fin (5404319552844595 / 18014398509481984)), (Fin (5404319552844595 / 18014398509481984), Fin (5404319552844595 / 9007199254740992)), (Fin (5404319552844595 / 9007199254740992), Fin (2026619832316723 / 2251799813685248)), (Fin (2026619832316723 / 2251799813685248), Fin (4728779608739021 / 4503599627370496))]"
proof -
  have n: "nr_splits (4728779608739021 / 4503599627370496) (round_double (3/10)) = Inr 4"
    using nr_splits_Fin[of "round_double (3/10)" "4728779608739021 / 4503599627370496"]
    by (simp add: c03 rd_105_div_cs rd_105_sub ceiling_eq_iff)
  have c: "chunks (4728779608739021 / 4503599627370496) (round_double (3/10)) 4 =
      Inr [(Fin 0, Fin (5404319552844595 / 18014398509481984)), (Fin (5404319552844595 / 18014398509481984), Fin (5404319552844595 / 9007199254740992)), (Fin (5404319552844595 / 9007199254740992), Fin (2026619832316723 / 2251799813685248)), (Fin (2026619832316723 / 2251799813685248), Fin (4728779608739021 / 4503599627370496))]"
    using chunks_Fin[of "round_double (3/10)" 4 "4728779608739021 / 4503599627370496"]
    by (simp add: c03 upt_rec rd_cs rd_2cs rd_3cs rd_4cs)
  show ?thesis
    using submit_job_slices(1)[of "4728779608739021 / 4503599627370496" example_manager 4 _ "''sample-0.wav''" None None False]
    by (simp add: example_manager_simps n c)
qed

lemma slices_example_045:
  "slices (submit_job example_manager (Inr (''sample-0.wav'', 8106479329266893 / 18014398509481984)) None None False) =
     [(Fin 0, Fin (5404319552844595 / 18014398509481984))] \<and> (3/20 :: rat) < 8106479329266893 / 18014398509481984 - 5404319552844595 / 18014398509481984"
proof -
  have n: "nr_splits (8106479329266893 / 18014398509481984) (round_double (3/10)) = Inr 1"
    using nr_splits_Fin[of "round_double (3/10)" "8106479329266893 / 18014398509481984"]
    by (simp add: c03 rd_045_div_cs ceiling_eq_iff)
  have c: "chunks (8106479329266893 / 18014398509481984) (round_double (3/10)) 1 = Inr [(Fin 0, Fin (5404319552844595 / 18014398509481984))]"
    using chunks_Fin[of "round_double (3/10)" 1 "8106479329266893 / 18014398509481984"]
    by (simp add: c03 upt_rec rd_cs)
  show ?thesis
    using submit_job_slices(1)[of "8106479329266893 / 18014398509481984" example_manager 1 _ "''sample-0.wav''" None None False]
    by (simp add: example_manager_simps n c)
qed

subsection \<open>The slices of a job\<close>

text \<open>
  Claim C1, as amended. The duration is a positive double of at most \<open>2 ^ 32\<close> seconds and
  the chunk width the double nearest to 0.3; all values are those of the double-precision
  arithmetic of lines 148--155. \<open>submit_job\<close> builds \<open>n\<close> slices, where \<open>n\<close> is the value of
  \<^verbatim>\<open>math.ceil(duration / chunk_size - 0.5)\<close> and lies within
  \<open>d / chunk_size - 1/2 - 2 ^ -16 < n < d / chunk_size + 1/2\<close>. Slice \<open>i\<close> runs from the
  double \<open>i * chunk_size\<close> to the smaller of the double \<open>(i + 1) * chunk_size\<close> and \<open>d\<close>; the
  slices are non-empty and contiguous and the first starts at 0. The last slice ends at
  \<open>min (n * chunk_size) d\<close>: at most at \<open>d\<close>, and short of \<open>d\<close> by less than half a chunk
  width plus \<open>2 ^ -16\<close>. There is no slice when \<open>d\<close> is at most half a chunk width.
\<close>

theorem slices_partition:
  assumes "is_double d" and "0 < d" and "d \<le> 2 ^ 32"
    and "chunk_size mgr = round_double (3/10)" and "a2f_clients mgr \<noteq> []"
  shows "let j = submit_job mgr (Inr (path, d)) fps em use_a2e; c = slices j; n = length c;
             cs = chunk_size mgr in
           stream j = Streaming \<and> nr_splits d cs = Inr (int n) \<and>
           of_nat n - 1/2 < d / cs \<and> d / cs < of_nat n + 1/2 + 1 / 2 ^ 16 \<and>
           (\<forall>i<n. c ! i = (Fin (round_double (of_nat i * cs)),
                           Fin (min (round_double ((of_nat i + 1) * cs)) d)) \<and>
                  round_double (of_nat i * cs) < min (round_double ((of_nat i + 1) * cs)) d) \<and>
           (\<forall>i. Suc i < n \<longrightarrow> snd (c ! i) = fst (c ! Suc i)) \<and>
           (0 < n \<longrightarrow> fst (c ! 0) = Fin 0 \<and>
                      snd (last c) = Fin (min (round_double (of_nat n * cs)) d) \<and>
                      min (round_double (of_nat n * cs)) d \<le> d \<and>
                      d - min (round_double (of_nat n * cs)) d < cs / 2 + 1 / 2 ^ 16) \<and>
           (d \<le> cs / 2 \<longrightarrow> n = 0)"
proof -
  define cs where "cs = chunk_size mgr"
  define j where "j = submit_job mgr (Inr (path, d)) fps em use_a2e"
  define c where "c = slices j"
  define s where "s = (\<lambda>i. round_double (of_nat i * cs))"
  have cs: "1/4 \<le> cs" "cs \<le> 1/2" "0 < cs" "cs \<noteq> 0" using cs_bounds assms(4) by (simp_all add: cs_def)
  have d0: "0 \<le> d" using assms(2) by simp
  have "d / cs \<le> d / (1/4)" using cs(1) assms(2) by (intro divide_left_mono) simp_all
  then have "d / cs \<le> 2 ^ 34" using assms(3) by simp
  moreover have "0 \<le> d / cs" using d0 cs(3) by simp
  ultimately have "\<bar>d / cs\<bar> \<le> 2 ^ 34" by simp
  then have "\<bar>d / cs\<bar> \<le> 2 ^ 1023" by (rule order_trans) simp
  then obtain k where k: "nr_splits d cs = Inr k" using nr_splits_Fin[OF cs(4)] by blast
  note p = slices_properties[OF assms(1,2,3) cs(1,2) k]
  have ch: "chunks d cs k =
      Inr (map (\<lambda>i. (Fin (s i), Fin (min (round_double ((of_nat i + 1) * cs)) d))) [0..<nat k])"
    using p(5) by (simp add: s_def)
  have c: "c = map (\<lambda>i. (Fin (s i), Fin (min (round_double ((of_nat i + 1) * cs)) d))) [0..<nat k]"
    and st: "stream j = Streaming"
    unfolding c_def j_def using submit_job_slices[of d mgr k _ path fps em use_a2e] k ch assms(5)
    by (simp_all add: cs_def)
  have len: "length c = nat k" by (simp add: c)
  have kn: "k = int (length c)" using p(1) len by simp
  have nth: "c ! i = (Fin (s i), Fin (min (round_double ((of_nat i + 1) * cs)) d))"
    if "i < length c" for i using that by (simp add: c)
  have 1: "nr_splits d cs = Inr (int (length c))" using k kn by simp
  have 2: "of_nat (length c) - 1/2 < d / cs" "d / cs < of_nat (length c) + 1/2 + 1 / 2 ^ 16"
    using p(3,4) kn by simp_all
  have 3: "c ! i = (Fin (s i), Fin (min (round_double ((of_nat i + 1) * cs)) d)) \<and>
           s i < min (round_double ((of_nat i + 1) * cs)) d" if "i < length c" for i
  proof -
    have "int i < k" using that kn by simp
    then show ?thesis using p(6)[of i] nth[OF that] by (simp add: s_def)
  qed
  have 4: "snd (c ! i) = fst (c ! Suc i)" if "Suc i < length c" for i
  proof -
    have "int i + 1 < k" using that kn by simp
    then have "min (round_double ((of_nat i + 1) * cs)) d = round_double ((of_nat i + 1) * cs)"
      by (rule p(7))
    moreover have "i < length c" using that by simp
    ultimately show ?thesis using nth[OF that] nth[of i] by (simp add: s_def add.commute)
  qed
  have 5: "fst (c ! 0) = Fin 0 \<and>
           snd (last c) = Fin (min (round_double (of_nat (length c) * cs)) d) \<and>
           min (round_double (of_nat (length c) * cs)) d \<le> d \<and>
           d - min (round_double (of_nat (length c) * cs)) d < cs / 2 + 1 / 2 ^ 16"
    if pos: "0 < length c"
  proof -
    obtain m where m: "length c = Suc m" using pos by (cases "length c") auto
    have ne: "c \<noteq> []" using pos by auto
    have "last c = c ! m" using m ne by (simp add: last_conv_nth)
    then have l: "snd (last c) = Fin (min (round_double (of_nat (length c) * cs)) d)"
      using nth[of m] m by (simp add: add.commute)
    have "0 < k" using pos kn by simp
    then have "d - min (round_double (of_int k * cs)) d < cs / 2 + 1 / 2 ^ 16" by (rule p(8))
    then have t: "d - min (round_double (of_nat (length c) * cs)) d < cs / 2 + 1 / 2 ^ 16"
      using kn by simp
    show ?thesis using nth[OF pos] l t by (simp add: s_def)
  qed
  have 6: "length c = 0" if "d \<le> cs / 2"
  proof -
    have "k \<le> 0" using nr_splits_le_half[OF cs(3) that k] .
    then show ?thesis using len by simp
  qed
  show ?thesis
    unfolding Let_def j_def[symmetric] c_def[symmetric] cs_def[symmetric]
    using st 1 2 3 4 5 6 unfolding s_def by blast
qed

theorem slices_partition_witness:
  "let c = slices (submit_job example_manager (Inr (''sample-0.wav'', 1)) None None False) in
     c = [(Fin 0, Fin (5404319552844595 / 18014398509481984)), (Fin (5404319552844595 / 18014398509481984), Fin (5404319552844595 / 9007199254740992)), (Fin (5404319552844595 / 9007199254740992), Fin (2026619832316723 / 2251799813685248))] \<and>
     nr_splits 1 (chunk_size example_manager) = Inr 3 \<and>
     snd (last c) = Fin (min (round_double (3 * chunk_size example_manager)) 1)"
  using slices_partition[of 1 example_manager "''sample-0.wav''" None None False]
  by (simp add: slices_example example_manager_simps Let_def)

text \<open>
  The claim as stated fails for the duration 1.0: the third slice ends at the double
  \<^verbatim>\<open>0.8999999999999999\<close>, not at 1.0.
\<close>

theorem slices_partition_counterexample:
  "slices (submit_job example_manager (Inr (''sample-0.wav'', 1)) None None False)
     \<noteq> [(Fin 0, Fin (5404319552844595 / 18014398509481984)), (Fin (5404319552844595 / 18014398509481984), Fin (5404319552844595 / 9007199254740992)), (Fin (5404319552844595 / 9007199254740992), Fin 1)] \<and>
   snd (last (slices (submit_job example_manager (Inr (''sample-0.wav'', 1)) None None False)))
     \<noteq> Fin 1"
  by (simp add: slices_example)

end
